theory Spec2Isabelle
  imports Complex_Main "HOL-Library.Word" "HOL-Library.Sublist"
begin

section \<open>The benchmark script: text handling\<close>

text \<open>
  The development embeds \<^verbatim>\<open>benchmark_script.py\<close>. A Python \<^verbatim>\<open>str\<close> is a
  \<^typ>\<open>string\<close>; each \<^typ>\<open>char\<close> stands for one code point below 256. Python
  integers are \<^typ>\<open>int\<close> (unbounded), and \<^verbatim>\<open>int()\<close> refuses a text of more
  than 4300 digits, the interpreter's default limit. A Python float is an IEEE
  double: a rational number that 53 bits write, or an infinity; every float
  operation of the script rounds to the nearest double, a tie to the even one. The
  columns that pandas holds as \<^verbatim>\<open>int64\<close> are \<^typ>\<open>64 word\<close>.
\<close>

datatype error = ValueError | KeyError | OverflowError | IndexError | EOFError

subsection \<open>Character classes of \<^verbatim>\<open>re\<close> and \<^verbatim>\<open>str.strip\<close>\<close>

text \<open>
  \<^verbatim>\<open>\s\<close> (and \<^verbatim>\<open>str.strip()\<close>) take the characters for which
  \<^verbatim>\<open>str.isspace()\<close> holds: below 256 these are 9 to 13, 28 to 32, 133 and 160.
  \<^verbatim>\<open>\d\<close> takes the decimal digits.
\<close>

definition is_space :: "char \<Rightarrow> bool" where
  "is_space c =
     (let k = (of_char c :: nat)
      in (9 \<le> k \<and> k \<le> 13) \<or> (28 \<le> k \<and> k \<le> 32) \<or> k = 133 \<or> k = 160)"

definition is_digit :: "char \<Rightarrow> bool" where
  "is_digit c = (let k = (of_char c :: nat) in 48 \<le> k \<and> k \<le> 57)"

definition digit_val :: "char \<Rightarrow> nat" where
  "digit_val c = of_char c - 48"

subsection \<open>\<^verbatim>\<open>str.split("\n")\<close>, \<^verbatim>\<open>str.strip()\<close>, \<^verbatim>\<open>str.replace\<close>, \<^verbatim>\<open>str.join\<close>\<close>

fun split_on :: "char \<Rightarrow> string \<Rightarrow> string list" where
  "split_on sep [] = [[]]"
| "split_on sep (c # cs) =
     (if c = sep then [] # split_on sep cs
      else (case split_on sep cs of
              [] \<Rightarrow> [[c]]
            | l # ls \<Rightarrow> (c # l) # ls))"

definition strip :: "string \<Rightarrow> string" where
  "strip s = rev (dropWhile is_space (rev (dropWhile is_space s)))"

definition remove_char :: "char \<Rightarrow> string \<Rightarrow> string" where
  "remove_char c s = filter (\<lambda>x. x \<noteq> c) s"

fun join :: "string \<Rightarrow> string list \<Rightarrow> string" where
  "join sep [] = []"
| "join sep [x] = x"
| "join sep (x # y # ys) = x @ sep @ join sep (y # ys)"

subsection \<open>A backtracking matcher for the two patterns\<close>

text \<open>
  The regular expressions of the script are built from three pieces; each takes the
  continuation that matches the rest of the pattern, as a backtracking engine does.
  \<open>many p k acc s\<close> is \<^verbatim>\<open>p*\<close>: greedy, it gives back one character at a time
  when the continuation fails; \<open>acc\<close> holds what it has consumed.
\<close>

fun many :: "(char \<Rightarrow> bool) \<Rightarrow> (string \<Rightarrow> string \<Rightarrow> 'a option) \<Rightarrow> string \<Rightarrow> string \<Rightarrow> 'a option" where
  "many p k acc [] = k acc []"
| "many p k acc (c # cs) =
     (if p c then
        (case many p k (acc @ [c]) cs of
           Some r \<Rightarrow> Some r
         | None \<Rightarrow> k acc (c # cs))
      else k acc (c # cs))"

definition many1 :: "(char \<Rightarrow> bool) \<Rightarrow> (string \<Rightarrow> string \<Rightarrow> 'a option) \<Rightarrow> string \<Rightarrow> 'a option" where
  "many1 p k s = (case s of [] \<Rightarrow> None | c # cs \<Rightarrow> if p c then many p k [c] cs else None)"

definition one :: "(char \<Rightarrow> bool) \<Rightarrow> (string \<Rightarrow> 'a option) \<Rightarrow> string \<Rightarrow> 'a option" where
  "one p k s = (case s of [] \<Rightarrow> None | c # cs \<Rightarrow> if p c then k cs else None)"

definition lit :: "string \<Rightarrow> (string \<Rightarrow> 'a option) \<Rightarrow> string \<Rightarrow> 'a option" where
  "lit l k s = (if prefix l s then k (drop (length l) s) else None)"

text \<open>\<^verbatim>\<open>re.match(r"^\s*\d+\s+\d", line)\<close>, as a truth value.\<close>

definition re_match_table_line :: "string \<Rightarrow> bool" where
  "re_match_table_line line =
     (many is_space (\<lambda>_. many1 is_digit (\<lambda>_. many1 is_space (\<lambda>_. one is_digit (\<lambda>_. Some ())))) [] line
        \<noteq> None)"

text \<open>
  \<^verbatim>\<open>re.search(r'(\d+):(\d+\.\d+)elapsed', output)\<close>: the two groups of the leftmost
  match, or \<open>None\<close>.
\<close>

definition elapsed_match_here :: "string \<Rightarrow> (string \<times> string) option" where
  "elapsed_match_here s =
     many1 is_digit (\<lambda>minutes. lit '':''
       (many1 is_digit (\<lambda>whole. lit ''.''
          (many1 is_digit (\<lambda>decimals. lit ''elapsed''
             (\<lambda>_. Some (minutes, whole @ ''.'' @ decimals))))))) s"

fun re_search_elapsed :: "string \<Rightarrow> (string \<times> string) option" where
  "re_search_elapsed [] = elapsed_match_here []"
| "re_search_elapsed (c # cs) =
     (case elapsed_match_here (c # cs) of
        Some g \<Rightarrow> Some g
      | None \<Rightarrow> re_search_elapsed cs)"

text \<open>
  \<^verbatim>\<open>re.split(r"\s+", s)\<close>: the pieces between the maximal runs of white space, the
  empty piece before a leading run and after a trailing one included.
\<close>

function re_split_ws :: "string \<Rightarrow> string list" where
  "re_split_ws s =
     (case dropWhile (\<lambda>c. \<not> is_space c) s of
        [] \<Rightarrow> [s]
      | c # cs \<Rightarrow> takeWhile (\<lambda>c. \<not> is_space c) s # re_split_ws (dropWhile is_space cs))"
  by pat_completeness auto
termination
proof (relation "measure length")
  fix s :: string and c cs
  assume "dropWhile (\<lambda>c. \<not> is_space c) s = c # cs"
  then have "length (c # cs) \<le> length s"
    using length_dropWhile_le [of "\<lambda>c. \<not> is_space c" s] by simp
  moreover have "length (dropWhile is_space cs) \<le> length cs"
    by (rule length_dropWhile_le)
  ultimately show "(dropWhile is_space cs, s) \<in> measure length"
    by simp
qed simp

declare re_split_ws.simps [simp del]

subsection \<open>\<^verbatim>\<open>int()\<close> on text\<close>

text \<open>
  \<^verbatim>\<open>int(s)\<close> strips white space, takes one optional sign, then decimal digits with
  single underscores allowed between two digits; anything else is a
  \<^verbatim>\<open>ValueError\<close>. So is a text with more digits than
  \<^verbatim>\<open>sys.get_int_max_str_digits()\<close>, 4300 unless the interpreter is told otherwise:
  every digit counts, a leading zero too; signs, underscores and white space do
  not.
\<close>

fun int_digits :: "nat \<Rightarrow> string \<Rightarrow> nat option" where
  "int_digits acc [] = Some acc"
| "int_digits acc [c] = (if is_digit c then Some (10 * acc + digit_val c) else None)"
| "int_digits acc (c # d # ds) =
     (if is_digit c then int_digits (10 * acc + digit_val c) (d # ds)
      else if c = CHR ''_'' \<and> is_digit d then int_digits (10 * acc + digit_val d) ds
      else None)"

definition int_unsigned :: "string \<Rightarrow> nat option" where
  "int_unsigned s =
     (case s of
        [] \<Rightarrow> None
      | c # cs \<Rightarrow> if is_digit c then int_digits (digit_val c) cs else None)"

definition int_max_str_digits :: nat where
  "int_max_str_digits = 4300"

definition py_int :: "string \<Rightarrow> error + int" where
  "py_int s =
     (let t = strip s;
          v = (case t of
                 [] \<Rightarrow> None
               | c # cs \<Rightarrow>
                   if c = CHR ''+'' then map_option int (int_unsigned cs)
                   else if c = CHR ''-'' then map_option (\<lambda>n. - int n) (int_unsigned cs)
                   else map_option int (int_unsigned t))
      in case v of
           None \<Rightarrow> Inl ValueError
         | Some i \<Rightarrow>
             if int_max_str_digits < length (filter is_digit t) then Inl ValueError else Inr i)"

subsection \<open>Floats\<close>

text \<open>
  A float is a finite double, given by the rational number it is, an infinity, or
  not a number. No operation of the script gives a negative zero, so the sign of a
  zero is not kept.
\<close>

datatype pyfloat = Finite_float rat | Pos_inf | Neg_inf | Not_a_number

definition round_half_even :: "rat \<Rightarrow> int" where
  "round_half_even x =
     (let f = \<lfloor>x\<rfloor>; r = x - of_int f
      in if r < 1 / 2 then f
         else if 1 / 2 < r then f + 1
         else if even f then f else f + 1)"

fun bit_length :: "nat \<Rightarrow> nat" where
  "bit_length n = (if n = 0 then 0 else Suc (bit_length (n div 2)))"

declare bit_length.simps [simp del]

text \<open>
  The doubles are the multiples of \<open>2 ^ k / 2 ^ 1074\<close> that 53 bits write: a
  magnitude counted in units of \<open>1 / 2 ^ 1074\<close>, the smallest double, and written
  with \<open>b\<close> bits before the point lies between two neighbours \<open>2 ^ (b - 53)\<close>
  units apart (one unit apart below \<open>2 ^ 53\<close> units). \<open>nearest_double\<close> is the
  nearer neighbour, the one with the even multiple at a tie; a result of magnitude
  \<open>2 ^ 1024\<close> or more is no double, and \<open>round_double\<close> gives the infinity then.
\<close>

definition nearest_double :: "rat \<Rightarrow> rat" where
  "nearest_double x =
     (let y = \<bar>x\<bar> * 2 ^ 1074;
          k = bit_length (nat \<lfloor>y\<rfloor>) - 53;
          r = of_int (round_half_even (y / 2 ^ k)) * 2 ^ k / 2 ^ 1074
      in if x < 0 then - r else r)"

definition round_double :: "rat \<Rightarrow> pyfloat" where
  "round_double x =
     (let r = nearest_double x
      in if 2 ^ 1024 \<le> r then Pos_inf
         else if r \<le> - (2 ^ 1024) then Neg_inf
         else Finite_float r)"

text \<open>\<^verbatim>\<open>a + b\<close> on two floats: the sum rounded; no exception, an infinity instead.\<close>

fun float_add :: "pyfloat \<Rightarrow> pyfloat \<Rightarrow> pyfloat" where
  "float_add (Finite_float a) (Finite_float b) = round_double (a + b)"
| "float_add Not_a_number _ = Not_a_number"
| "float_add _ Not_a_number = Not_a_number"
| "float_add Pos_inf Neg_inf = Not_a_number"
| "float_add Neg_inf Pos_inf = Not_a_number"
| "float_add Pos_inf _ = Pos_inf"
| "float_add _ Pos_inf = Pos_inf"
| "float_add Neg_inf _ = Neg_inf"
| "float_add _ Neg_inf = Neg_inf"

subsection \<open>\<^verbatim>\<open>float()\<close> on text and on an \<^verbatim>\<open>int\<close>\<close>

text \<open>
  \<^verbatim>\<open>float(s)\<close> is modelled on the texts the script passes to it, digits, a point,
  digits: the value is the double nearest to the decimal number written, the
  infinity when that number is too large, and no number of digits is refused.
  Other forms that Python's \<^verbatim>\<open>float\<close> accepts (exponents, signs, \<^verbatim>\<open>inf\<close>) never
  reach the call and are left as \<^verbatim>\<open>ValueError\<close> here.
\<close>

definition nat_of_digits :: "string \<Rightarrow> nat" where
  "nat_of_digits s = foldl (\<lambda>a c. 10 * a + digit_val c) 0 s"

definition py_float :: "string \<Rightarrow> error + pyfloat" where
  "py_float s =
     (let whole = takeWhile is_digit s; r = dropWhile is_digit s
      in case r of
           [] \<Rightarrow> Inl ValueError
         | c # decimals \<Rightarrow>
             if c = CHR ''.'' \<and> whole \<noteq> [] \<and> decimals \<noteq> [] \<and> list_all is_digit decimals
             then Inr (round_double
                    (of_nat (nat_of_digits whole) + of_nat (nat_of_digits decimals) / 10 ^ length decimals))
             else Inl ValueError)"

text \<open>
  Adding an \<^verbatim>\<open>int\<close> to a \<^verbatim>\<open>float\<close> converts the \<^verbatim>\<open>int\<close> first, to the nearest
  double; an \<^verbatim>\<open>int\<close> that rounds to a magnitude of \<open>2 ^ 1024\<close> or more raises
  \<^verbatim>\<open>OverflowError\<close>.
\<close>

definition float_of_int :: "int \<Rightarrow> error + pyfloat" where
  "float_of_int i =
     (case round_double (of_int i) of
        Finite_float r \<Rightarrow> Inr (Finite_float r)
      | _ \<Rightarrow> Inl OverflowError)"

section \<open>\<^verbatim>\<open>extract_and_convert_time\<close>\<close>

definition extract_and_convert_time :: "string \<Rightarrow> error + pyfloat option" where
  "extract_and_convert_time output =
     (case re_search_elapsed output of
        None \<Rightarrow> Inr None
      | Some (minutes, seconds) \<Rightarrow>
          (case py_int minutes of
             Inl e \<Rightarrow> Inl e
           | Inr m \<Rightarrow>
               (case py_float seconds of
                  Inl e \<Rightarrow> Inl e
                | Inr sec \<Rightarrow>
                    (case float_of_int (m * 60) of
                       Inl e \<Rightarrow> Inl e
                     | Inr whole_minutes \<Rightarrow> Inr (Some (float_add whole_minutes sec))))))"

section \<open>\<^verbatim>\<open>BenchmarkTool.process_massif_output\<close>\<close>

text \<open>One entry of \<^verbatim>\<open>parsed_tables\<close>: the dictionary built for a table line.\<close>

record parsed_table =
  pt_n :: int
  pt_time_i :: string
  pt_total_B :: string
  pt_useful_heap_B :: string
  pt_extra_heap_B :: string
  pt_stacks_B :: string

text \<open>The loop over \<^verbatim>\<open>table_lines\<close>; \<^verbatim>\<open>int(parts[0])\<close> may raise.\<close>

fun parse_table_lines :: "string list \<Rightarrow> parsed_table list \<Rightarrow> error + parsed_table list" where
  "parse_table_lines [] parsed_tables = Inr parsed_tables"
| "parse_table_lines (line # table_lines) parsed_tables =
     (let parts = re_split_ws (strip line)
      in if 6 \<le> length parts then
           (case py_int (parts ! 0) of
              Inl e \<Rightarrow> Inl e
            | Inr i \<Rightarrow>
                parse_table_lines table_lines
                  (parsed_tables @
                   [\<lparr>pt_n = i, pt_time_i = parts ! 1, pt_total_B = parts ! 2,
                     pt_useful_heap_B = parts ! 3, pt_extra_heap_B = parts ! 4,
                     pt_stacks_B = parts ! 5\<rparr>]))
         else parse_table_lines table_lines parsed_tables)"

definition parse_massif_rows :: "string \<Rightarrow> error + parsed_table list" where
  "parse_massif_rows output =
     (let lines = split_on CHR ''\<newline>'' output;
          table_lines = filter re_match_table_line lines
      in parse_table_lines table_lines [])"

text \<open>
  \<^verbatim>\<open>Series.str.replace(',', '').astype(int)\<close>: each text of the column loses its
  commas and goes through \<^verbatim>\<open>int()\<close> into an \<^verbatim>\<open>int64\<close>; a text that is no
  integer raises \<^verbatim>\<open>ValueError\<close>, an integer outside \<^verbatim>\<open>int64\<close> raises
  \<^verbatim>\<open>OverflowError\<close>. The first failing entry of the column decides.
\<close>

definition to_int64 :: "string \<Rightarrow> error + 64 word" where
  "to_int64 s =
     (case py_int s of
        Inl e \<Rightarrow> Inl e
      | Inr i \<Rightarrow> if - (2 ^ 63) \<le> i \<and> i < 2 ^ 63 then Inr (word_of_int i) else Inl OverflowError)"

fun astype_int :: "string list \<Rightarrow> error + 64 word list" where
  "astype_int [] = Inr []"
| "astype_int (s # ss) =
     (case to_int64 s of
        Inl e \<Rightarrow> Inl e
      | Inr v \<Rightarrow> (case astype_int ss of Inl e \<Rightarrow> Inl e | Inr vs \<Rightarrow> Inr (v # vs)))"

definition column_to_int :: "(parsed_table \<Rightarrow> string) \<Rightarrow> parsed_table list \<Rightarrow> error + 64 word list" where
  "column_to_int col parsed_tables = astype_int (map (\<lambda>r. remove_char CHR '','' (col r)) parsed_tables)"

text \<open>
  A row of the returned frame. Column \<^verbatim>\<open>n\<close> holds the sample numbers and, in
  the last row, the label \<^verbatim>\<open>'Total'\<close>; the five other columns are \<^verbatim>\<open>int64\<close>.
\<close>

datatype n_cell = Sample int | Total_label

record table_row =
  col_n :: n_cell
  col_time_i :: "64 word"
  col_total_B :: "64 word"
  col_useful_heap_B :: "64 word"
  col_extra_heap_B :: "64 word"
  col_stacks_B :: "64 word"

definition frame_rows ::
  "parsed_table list \<Rightarrow> 64 word list \<Rightarrow> 64 word list \<Rightarrow> 64 word list \<Rightarrow> 64 word list \<Rightarrow> 64 word list
     \<Rightarrow> table_row list" where
  "frame_rows parsed_tables ts bs us es ss =
     map (\<lambda>i. \<lparr>col_n = Sample (pt_n (parsed_tables ! i)), col_time_i = ts ! i, col_total_B = bs ! i,
                col_useful_heap_B = us ! i, col_extra_heap_B = es ! i, col_stacks_B = ss ! i\<rparr>)
       [0..<length parsed_tables]"

text \<open>
  \<^verbatim>\<open>pd.DataFrame([])\<close> has no columns, so with no parsed line the first column
  access \<^verbatim>\<open>df['time(i)']\<close> raises \<^verbatim>\<open>KeyError\<close>. \<^verbatim>\<open>Series.sum()\<close> of an
  \<^verbatim>\<open>int64\<close> column adds in \<^verbatim>\<open>int64\<close>, which wraps.
\<close>

definition process_massif_output :: "string \<Rightarrow> error + table_row list" where
  "process_massif_output output =
     (case parse_massif_rows output of
        Inl e \<Rightarrow> Inl e
      | Inr parsed_tables \<Rightarrow>
          if parsed_tables = [] then Inl KeyError
          else
            (case column_to_int pt_time_i parsed_tables of Inl e \<Rightarrow> Inl e | Inr ts \<Rightarrow>
            (case column_to_int pt_total_B parsed_tables of Inl e \<Rightarrow> Inl e | Inr bs \<Rightarrow>
            (case column_to_int pt_useful_heap_B parsed_tables of Inl e \<Rightarrow> Inl e | Inr us \<Rightarrow>
            (case column_to_int pt_extra_heap_B parsed_tables of Inl e \<Rightarrow> Inl e | Inr es \<Rightarrow>
            (case column_to_int pt_stacks_B parsed_tables of Inl e \<Rightarrow> Inl e | Inr ss \<Rightarrow>
               (let df = frame_rows parsed_tables ts bs us es ss;
                    total_row = \<lparr>col_n = Total_label, col_time_i = sum_list ts, col_total_B = sum_list bs,
                                 col_useful_heap_B = sum_list us, col_extra_heap_B = sum_list es,
                                 col_stacks_B = sum_list ss\<rparr>
                in Inr (df @ [total_row]))))))))"

section \<open>The session: \<^verbatim>\<open>BenchmarkTool\<close> and its environment\<close>

text \<open>
  What the script does to the outside is a change of the \<open>world\<close>: the records
  handed to \<^verbatim>\<open>logging\<close>, the lines printed, the commands given to
  \<^verbatim>\<open>subprocess.run\<close>. What a command answers, and which files exist after it,
  is the environment's choice (\<open>shell\<close>): every command is taken to complete with
  an exit status and two decoded streams, so a shell that cannot be started is not
  modelled. \<open>file_exists\<close> is the answer of \<^verbatim>\<open>Path.exists()\<close>. A path is the list
  of its components. In a printed line the text of a float stays a \<open>Float_str\<close>
  fragment.
\<close>

datatype log_level = INFO | ERROR

type_synonym path = "string list"

record completed_process =
  returncode :: int
  stdout :: string
  stderr :: string

datatype fragment = Text string | Float_str pyfloat

record world =
  file_exists :: "path \<Rightarrow> bool"
  shell :: "string \<Rightarrow> string option \<Rightarrow> (path \<Rightarrow> bool) \<Rightarrow> completed_process \<times> (path \<Rightarrow> bool)"
  commands :: "(string \<times> string option) list"
  log :: "(log_level \<times> string) list"
  printed :: "fragment list list"

record benchmark_tool =
  current_dir_path :: string
  zkllvm_template_path :: path
  build_src :: path
  build :: path
  input_json :: path
  assigner_total_gb :: "rat option"
  proof_total_gb :: "rat option"
  assigner_formatted_time :: "pyfloat option"
  proof_formatted_time :: "pyfloat option"

definition path_str :: "path \<Rightarrow> string" where
  "path_str p = join ''/'' p"

definition init :: "string \<Rightarrow> path \<Rightarrow> benchmark_tool" where
  "init cwd template_path =
     \<lparr>current_dir_path = cwd,
      zkllvm_template_path = template_path,
      build_src = template_path @ [''build'', ''src''],
      build = template_path @ [''build''],
      input_json = template_path @ [''src'', ''main-input.json''],
      assigner_total_gb = None,
      proof_total_gb = None,
      assigner_formatted_time = None,
      proof_formatted_time = None\<rparr>"

definition logging :: "log_level \<Rightarrow> string \<Rightarrow> world \<Rightarrow> world" where
  "logging level msg w = w\<lparr>log := log w @ [(level, msg)]\<rparr>"

definition print :: "fragment list \<Rightarrow> world \<Rightarrow> world" where
  "print line w = w\<lparr>printed := printed w @ [line]\<rparr>"

subsection \<open>\<^verbatim>\<open>run_command\<close> and \<^verbatim>\<open>verify_build\<close>\<close>

definition run_command ::
  "string \<Rightarrow> string option \<Rightarrow> benchmark_tool \<Rightarrow> world \<Rightarrow> (string \<times> string) \<times> benchmark_tool \<times> world" where
  "run_command command cwd self w =
     (let (result, files) = shell w command cwd (file_exists w);
          w1 = w\<lparr>file_exists := files, commands := commands w @ [(command, cwd)]\<rparr>;
          w2 = (if returncode result \<noteq> 0
                then logging ERROR (''Command failed with error: '' @ stderr result) w1
                else logging INFO (''Command output: '' @ stdout result) w1)
      in ((stdout result, stderr result), self, w2))"

definition required_files :: "string list" where
  "required_files = [''template.ll'', ''template.crct'', ''template.tbl'']"

definition verify_build :: "benchmark_tool \<Rightarrow> world \<Rightarrow> bool \<times> benchmark_tool \<times> world" where
  "verify_build self w =
     (let missing_files = filter (\<lambda>f. \<not> file_exists w (build_src self @ [f])) required_files
      in if missing_files \<noteq> []
         then (False, self,
               logging ERROR (''Missing required build files: '' @ join '', '' missing_files) w)
         else (True, self, w))"

subsection \<open>The commands\<close>

definition compile_circuit :: "benchmark_tool \<Rightarrow> world \<Rightarrow> (string \<times> string) \<times> benchmark_tool \<times> world" where
  "compile_circuit self w =
     run_command ''scripts/run.sh --docker compile'' (Some (path_str (zkllvm_template_path self))) self w"

definition assigner_heap_command :: "benchmark_tool \<Rightarrow> string" where
  "assigner_heap_command self =
     ''valgrind --massif-out-file=assigner_memory_bench --tool=massif assigner -b ''
       @ path_str (build_src self) @ ''/template.ll -p '' @ path_str (input_json self)
       @ '' -c '' @ path_str (build_src self) @ ''/template.crct -t ''
       @ path_str (build_src self) @ ''/template.tbl -e pallas''"

definition proof_heap_command :: "benchmark_tool \<Rightarrow> string" where
  "proof_heap_command self =
     ''valgrind --massif-out-file=proof_memory_bench --tool=massif proof-generator-single-threaded --circuit ''
       @ path_str (build self) @ ''/template.crct --assignment ''
       @ path_str (build_src self) @ ''/template.tbl --proof proof.bin''"

definition assigner_time_command :: "benchmark_tool \<Rightarrow> string" where
  "assigner_time_command self =
     ''time assigner -b '' @ path_str (build_src self) @ ''/template.ll -p ''
       @ path_str (input_json self) @ '' -c '' @ path_str (build_src self)
       @ ''/template.crct -t '' @ path_str (build_src self) @ ''/template.tbl -e pallas''"

definition proof_time_command :: "benchmark_tool \<Rightarrow> string" where
  "proof_time_command self =
     ''time proof-generator-single-threaded --circuit '' @ path_str (build_src self)
       @ ''/template.crct --assignment '' @ path_str (build_src self)
       @ ''/template.tbl --proof '' @ path_str (build self) @ ''/proof.bin''"

definition measure_assigner_heap_allocation ::
  "benchmark_tool \<Rightarrow> world \<Rightarrow> (string \<times> string) \<times> benchmark_tool \<times> world" where
  "measure_assigner_heap_allocation self w =
     run_command (assigner_heap_command self) (Some (current_dir_path self)) self w"

definition measure_proof_generation_heap_allocation ::
  "benchmark_tool \<Rightarrow> world \<Rightarrow> (string \<times> string) \<times> benchmark_tool \<times> world" where
  "measure_proof_generation_heap_allocation self w =
     run_command (proof_heap_command self) (Some (current_dir_path self)) self w"

definition measure_assigner_execution_time ::
  "benchmark_tool \<Rightarrow> world \<Rightarrow> (string \<times> string) \<times> benchmark_tool \<times> world" where
  "measure_assigner_execution_time self w =
     run_command (assigner_time_command self) (Some (current_dir_path self)) self w"

definition measure_proof_generation_execution_time ::
  "benchmark_tool \<Rightarrow> world \<Rightarrow> (string \<times> string) \<times> benchmark_tool \<times> world" where
  "measure_proof_generation_execution_time self w =
     run_command (proof_time_command self) (Some (current_dir_path self)) self w"

definition parse_memory_usage ::
  "string \<Rightarrow> benchmark_tool \<Rightarrow> world \<Rightarrow> (error + table_row list) \<times> benchmark_tool \<times> world" where
  "parse_memory_usage file_name self w =
     (let ((output, _), self1, w1) = run_command (''ms_print '' @ file_name) None self w
      in (process_massif_output output, self1, w1))"

subsection \<open>\<^verbatim>\<open>display_results\<close>\<close>

text \<open>
  The format \<^verbatim>\<open>.2f\<close> writes a float with two digits after the point: the value
  rounded to hundredths (a tie to the even neighbour), a minus sign for a negative
  value. The two memory attributes are quotients of an \<^verbatim>\<open>int64\<close> by \<open>2 ^ 30\<close>,
  finite doubles, and are kept as the rational numbers they are; the two time
  attributes may be infinite. The test \<^verbatim>\<open>value is None\<close> is written out for each of
  the four attributes, in the order of the list.
\<close>

definition digit_char :: "nat \<Rightarrow> char" where
  "digit_char d = ''0123456789'' ! d"

fun digits_of_nat :: "nat \<Rightarrow> string" where
  "digits_of_nat n =
     (if n < 10 then [digit_char n] else digits_of_nat (n div 10) @ [digit_char (n mod 10)])"

declare digits_of_nat.simps [simp del]

definition fmt_2f :: "rat \<Rightarrow> string" where
  "fmt_2f x =
     (let h = nat (round_half_even (\<bar>x\<bar> * 100))
      in (if x < 0 then ''-'' else [])
         @ digits_of_nat (h div 100) @ ''.''
         @ [digit_char (h div 10 mod 10), digit_char (h mod 10)])"

definition display_results :: "benchmark_tool \<Rightarrow> world \<Rightarrow> unit \<times> benchmark_tool \<times> world" where
  "display_results self w =
     (if list_ex (\<lambda>is_none. is_none)
           [assigner_total_gb self = None, assigner_formatted_time self = None,
            proof_total_gb self = None, proof_formatted_time self = None]
      then ((), self,
            logging ERROR ''Benchmark results are incomplete. Please run the benchmark first.'' w)
      else
        (let w1 = print [Text ''1. Assigner:\<newline>   Memory: '',
                         Text (fmt_2f (the (assigner_total_gb self))),
                         Text ''GB,\<newline>   Time: '',
                         Float_str (the (assigner_formatted_time self)),
                         Text ''s''] w;
             w2 = print [Text ''2. Proof:\<newline>   Memory: '',
                         Text (fmt_2f (the (proof_total_gb self))),
                         Text ''GB,\<newline>   Time: '',
                         Float_str (the (proof_formatted_time self)),
                         Text ''s''] w1
         in ((), self, w2)))"

subsection \<open>\<^verbatim>\<open>run\<close>: the menu\<close>

text \<open>
  One pass of the loop body for the line read from standard input. An exception
  leaves the loop (\<open>Raised\<close>); choice 7 ends it (\<open>Exit\<close>).
\<close>

datatype outcome = Continue | Exit | Raised error

text \<open>
  \<^verbatim>\<open>total_bytes / (2**30)\<close> on the \<^verbatim>\<open>int64\<close> of the last row: the nearest double
  of the integer, divided by a power of two, which is exact.
\<close>

definition total_gb :: "table_row list \<Rightarrow> rat" where
  "total_gb t = nearest_double (of_int (sint (col_total_B (last t)))) / 2 ^ 30"

definition print_menu :: "world \<Rightarrow> world" where
  "print_menu w =
     foldl (\<lambda>v l. print [Text l] v) w
       [''\<newline>Benchmark Tool Menu:'', ''1. Verify Build'', ''2. Measure Assigner Heap Allocation'',
        ''3. Measure Proof Generation Heap Allocation'', ''4. Measure Assigner Execution Time'',
        ''5. Measure Proof Generation Execution Time'', ''6. Display Results'', ''7. Exit'',
        ''Enter your choice (1-7): '']"

definition menu_action :: "string \<Rightarrow> benchmark_tool \<Rightarrow> world \<Rightarrow> outcome \<times> benchmark_tool \<times> world" where
  "menu_action choice self w =
     (if choice = ''1'' then
        (let (ok, self1, w1) = verify_build self w
         in if \<not> ok
            then (Continue, self1,
                  logging ERROR ''Build verification failed. Please ensure the zkllvm-template is correctly built before proceeding.'' w1)
            else (Continue, self1, logging INFO ''Build verification succeeded.'' w1))
      else if choice = ''2'' then
        (let (_, self1, w1) = measure_assigner_heap_allocation self w;
             (assigner_memory_table, self2, w2) = parse_memory_usage ''assigner_memory_bench'' self1 w1
         in case assigner_memory_table of
              Inl e \<Rightarrow> (Raised e, self2, w2)
            | Inr t \<Rightarrow>
                if t = [] then (Raised IndexError, self2, w2)
                else (Continue, self2\<lparr>assigner_total_gb := Some (total_gb t)\<rparr>,
                      logging INFO ''Assigner heap allocation measured.'' w2))
      else if choice = ''3'' then
        (let (_, self1, w1) = measure_proof_generation_heap_allocation self w;
             (proof_memory_table, self2, w2) = parse_memory_usage ''proof_memory_bench'' self1 w1
         in case proof_memory_table of
              Inl e \<Rightarrow> (Raised e, self2, w2)
            | Inr t \<Rightarrow>
                if t = [] then (Raised IndexError, self2, w2)
                else (Continue, self2\<lparr>proof_total_gb := Some (total_gb t)\<rparr>,
                      logging INFO ''Proof generation heap allocation measured.'' w2))
      else if choice = ''4'' then
        (let ((_, assigner_time), self1, w1) = measure_proof_generation_execution_time self w
         in case extract_and_convert_time assigner_time of
              Inl e \<Rightarrow> (Raised e, self1, w1)
            | Inr t \<Rightarrow>
                (Continue, self1\<lparr>assigner_formatted_time := t\<rparr>,
                 logging INFO ''Assigner execution time measured.'' w1))
      else if choice = ''5'' then
        (let ((_, proof_time), self1, w1) = measure_proof_generation_execution_time self w
         in case extract_and_convert_time proof_time of
              Inl e \<Rightarrow> (Raised e, self1, w1)
            | Inr t \<Rightarrow>
                (Continue, self1\<lparr>proof_formatted_time := t\<rparr>,
                 logging INFO ''Proof generation execution time measured.'' w1))
      else if choice = ''6'' then
        (let w1 = logging INFO ''Printing Benchmark Details:'' w;
             (_, self2, w2) = display_results self w1
         in (Continue, self2, w2))
      else if choice = ''7'' then (Exit, self, logging INFO ''Exiting.'' w)
      else (Continue, self, w))"

text \<open>
  The loop, over the lines that standard input still holds; \<^verbatim>\<open>input()\<close> at the end
  of input raises \<^verbatim>\<open>EOFError\<close>.
\<close>

fun menu_loop :: "string list \<Rightarrow> benchmark_tool \<Rightarrow> world \<Rightarrow> outcome \<times> benchmark_tool \<times> world" where
  "menu_loop [] self w = (Raised EOFError, self, print_menu w)"
| "menu_loop (choice # stdin) self w =
     (case menu_action choice self (print_menu w) of
        (Continue, self1, w1) \<Rightarrow> menu_loop stdin self1 w1
      | r \<Rightarrow> r)"

definition run :: "string list \<Rightarrow> benchmark_tool \<Rightarrow> world \<Rightarrow> outcome \<times> benchmark_tool \<times> world" where
  "run stdin self w =
     (let (ok, self1, w1) = verify_build self w
      in if \<not> ok
         then (Exit, self1,
               logging ERROR ''Build verification failed. Please ensure the zkllvm-template is correctly built before proceeding.'' w1)
         else menu_loop stdin self1 w1)"

section \<open>The notions of the specification\<close>

text \<open>
  The definitions of this section are not taken from the script: they say, in the
  words of its description, what the theorems below compare the script with.
\<close>

subsection \<open>Elapsed-time tokens\<close>

definition digit_string :: "string \<Rightarrow> bool" where
  "digit_string s = (s \<noteq> [] \<and> list_all is_digit s)"

text \<open>The token \<^verbatim>\<open><minutes>:<seconds-with-fraction>elapsed\<close>.\<close>

definition elapsed_token :: "string \<Rightarrow> string \<Rightarrow> string \<Rightarrow> string" where
  "elapsed_token m w d = m @ '':'' @ w @ ''.'' @ d @ ''elapsed''"

definition contains_elapsed_token :: "string \<Rightarrow> bool" where
  "contains_elapsed_token text =
     (\<exists>pre m w d post.
        text = pre @ elapsed_token m w d @ post \<and> digit_string m \<and> digit_string w \<and> digit_string d)"

text \<open>The first token of a text: no token starts before it.\<close>

definition first_elapsed_token :: "string \<Rightarrow> string \<Rightarrow> string \<Rightarrow> string \<Rightarrow> string \<Rightarrow> string \<Rightarrow> bool" where
  "first_elapsed_token text pre m w d post =
     (text = pre @ elapsed_token m w d @ post \<and> digit_string m \<and> digit_string w \<and> digit_string d \<and>
      (\<forall>pre' m' w' d' post'.
         text = pre' @ elapsed_token m' w' d' @ post' \<and> digit_string m' \<and> digit_string w' \<and>
         digit_string d' \<longrightarrow> length pre \<le> length pre'))"

text \<open>The number that \<^verbatim>\<open>w.d\<close> writes in decimal.\<close>

definition decimal_value :: "string \<Rightarrow> string \<Rightarrow> rat" where
  "decimal_value w d = of_nat (nat_of_digits w) + of_nat (nat_of_digits d) / 10 ^ length d"

subsection \<open>Data lines of a memory report\<close>

text \<open>
  The shape of a data line: leading optional white space, one or more digits, one or
  more white space, another digit.
\<close>

definition table_line_shape :: "string \<Rightarrow> bool" where
  "table_line_shape line =
     (\<exists>ws ds sp c rest.
        line = ws @ ds @ sp @ c # rest \<and> list_all is_space ws \<and> digit_string ds \<and>
        sp \<noteq> [] \<and> list_all is_space sp \<and> is_digit c)"

text \<open>The same shape, read off a line from left to right.\<close>

definition table_line_scan :: "string \<Rightarrow> bool" where
  "table_line_scan line =
     (let r1 = dropWhile is_space line; r2 = dropWhile is_digit r1; r3 = dropWhile is_space r2
      in takeWhile is_digit r1 \<noteq> [] \<and> takeWhile is_space r2 \<noteq> [] \<and> r3 \<noteq> [] \<and> is_digit (hd r3))"

text \<open>The white-space separated fields of a line: its maximal runs of other characters.\<close>

function line_fields :: "string \<Rightarrow> string list" where
  "line_fields s =
     (case dropWhile is_space s of
        [] \<Rightarrow> []
      | c # cs \<Rightarrow> (c # takeWhile (\<lambda>x. \<not> is_space x) cs) # line_fields (dropWhile (\<lambda>x. \<not> is_space x) cs))"
  by pat_completeness auto
termination
proof (relation "measure length")
  fix s :: string and c cs
  assume "dropWhile is_space s = c # cs"
  then have "length (c # cs) \<le> length s"
    using length_dropWhile_le [of is_space s] by simp
  moreover have "length (dropWhile (\<lambda>x. \<not> is_space x) cs) \<le> length cs"
    by (rule length_dropWhile_le)
  ultimately show "(dropWhile (\<lambda>x. \<not> is_space x) cs, s) \<in> measure length"
    by simp
qed simp

declare line_fields.simps [simp del]

text \<open>A sample line has the shape and at least six fields; its row takes the first six.\<close>

definition sample_line :: "string \<Rightarrow> bool" where
  "sample_line line = (table_line_shape line \<and> 6 \<le> length (line_fields line))"

definition sample_of_line :: "string \<Rightarrow> parsed_table" where
  "sample_of_line line =
     \<lparr>pt_n = int (nat_of_digits (line_fields line ! 0)),
      pt_time_i = line_fields line ! 1, pt_total_B = line_fields line ! 2,
      pt_useful_heap_B = line_fields line ! 3, pt_extra_heap_B = line_fields line ! 4,
      pt_stacks_B = line_fields line ! 5\<rparr>"

definition sample_lines :: "string \<Rightarrow> string list" where
  "sample_lines output = filter sample_line (split_on CHR ''\<newline>'' output)"

text \<open>
  A comma-grouped decimal: digits and commas, a digit among them. It is well formed
  for the report when its value fits the 64-bit column and it has no more digits
  than \<^verbatim>\<open>int()\<close> reads. A well-formed line is a sample line whose five
  measurements are well formed and whose sample number has no more digits than
  \<^verbatim>\<open>int()\<close> reads.
\<close>

definition grouped_decimal :: "string \<Rightarrow> bool" where
  "grouped_decimal s = (list_all (\<lambda>c. is_digit c \<or> c = CHR '','') s \<and> list_ex is_digit s)"

definition grouped_value :: "string \<Rightarrow> int" where
  "grouped_value s = int (nat_of_digits (remove_char CHR '','' s))"

definition well_formed_field :: "string \<Rightarrow> bool" where
  "well_formed_field s =
     (grouped_decimal s \<and> grouped_value s < 2 ^ 63 \<and>
      length (filter is_digit s) \<le> int_max_str_digits)"

definition well_formed_line :: "string \<Rightarrow> bool" where
  "well_formed_line line =
     (sample_line line \<and> length (line_fields line ! 0) \<le> int_max_str_digits \<and>
      list_all well_formed_field (take 5 (drop 1 (line_fields line))))"

text \<open>The row that a well-formed line stands for, and the sum reduced to 64 bits.\<close>

definition row_of_line :: "string \<Rightarrow> table_row" where
  "row_of_line line =
     \<lparr>col_n = Sample (int (nat_of_digits (line_fields line ! 0))),
      col_time_i = word_of_int (grouped_value (line_fields line ! 1)),
      col_total_B = word_of_int (grouped_value (line_fields line ! 2)),
      col_useful_heap_B = word_of_int (grouped_value (line_fields line ! 3)),
      col_extra_heap_B = word_of_int (grouped_value (line_fields line ! 4)),
      col_stacks_B = word_of_int (grouped_value (line_fields line ! 5))\<rparr>"

definition wrap64 :: "int \<Rightarrow> int" where
  "wrap64 i = signed_take_bit 63 i"

definition column_total :: "(table_row \<Rightarrow> 64 word) \<Rightarrow> table_row list \<Rightarrow> bool" where
  "column_total col t =
     (sint (col (last t)) = wrap64 (sum_list (map (\<lambda>r. sint (col r)) (butlast t))) \<and>
      (- (2 ^ 63) \<le> sum_list (map (\<lambda>r. sint (col r)) (butlast t)) \<and>
       sum_list (map (\<lambda>r. sint (col r)) (butlast t)) < 2 ^ 63 \<longrightarrow>
       sint (col (last t)) = sum_list (map (\<lambda>r. sint (col r)) (butlast t))))"

subsection \<open>Printed numbers and a sample session\<close>

text \<open>A text with exactly two decimal places: a point, then two digits, and no other point.\<close>

definition two_decimals :: "string \<Rightarrow> bool" where
  "two_decimals s =
     (\<exists>a d1 d2. s = a @ [CHR ''.'', d1, d2] \<and> is_digit d1 \<and> is_digit d2 \<and> CHR ''.'' \<notin> set a)"

text \<open>
  A session on the template directory \<^verbatim>\<open>../zkllvm-template\<close>, in a world where
  only \<^verbatim>\<open>template.ll\<close> has been built and where the command \<^verbatim>\<open>false\<close> fails.
\<close>

definition sample_tool :: benchmark_tool where
  "sample_tool = init ''/home/user'' [''..'', ''zkllvm-template'']"

definition sample_world :: world where
  "sample_world =
     \<lparr>file_exists = (\<lambda>p. p = [''..'', ''zkllvm-template'', ''build'', ''src'', ''template.ll'']),
      shell = (\<lambda>command cwd files.
                 (if command = ''false''
                  then \<lparr>returncode = 1, stdout = [], stderr = ''no such thing''\<rparr>
                  else \<lparr>returncode = 0, stdout = [], stderr = ''0:01.50elapsed''\<rparr>,
                  files)),
      commands = [],
      log = [],
      printed = []\<rparr>"

text \<open>The same session after the four measurements.\<close>

definition measured_tool :: benchmark_tool where
  "measured_tool =
     sample_tool\<lparr>assigner_total_gb := Some (3 / 2), proof_total_gb := Some 12,
                 assigner_formatted_time := Some (Finite_float (25 / 2)),
                 proof_formatted_time := Some (Finite_float 75)\<rparr>"

section \<open>Lemmas\<close>

subsection \<open>The matcher is deterministic on the two patterns\<close>

lemma digit_not_space: "is_digit c \<Longrightarrow> \<not> is_space c"
  by (auto simp add: is_space_def is_digit_def Let_def)

lemma many_deterministic:
  assumes "\<And>a c r. p c \<Longrightarrow> k a (c # r) = None"
  shows "many p k acc s = k (acc @ takeWhile p s) (dropWhile p s)"
proof (induction s arbitrary: acc)
  case Nil
  show ?case by simp
next
  case (Cons c cs)
  show ?case
  proof (cases "p c")
    case True
    have step: "many p k (acc @ [c]) cs = k (acc @ c # takeWhile p cs) (dropWhile p cs)"
      using Cons.IH [of "acc @ [c]"] by simp
    show ?thesis
    proof (cases "k (acc @ c # takeWhile p cs) (dropWhile p cs)")
      case None
      then show ?thesis using True step assms [of c acc cs] by simp
    next
      case (Some r)
      then show ?thesis using True step by simp
    qed
  next
    case False
    then show ?thesis by simp
  qed
qed

lemma many1_deterministic:
  assumes "\<And>a c r. p c \<Longrightarrow> k a (c # r) = None"
  shows "many1 p k s = (if takeWhile p s = [] then None else k (takeWhile p s) (dropWhile p s))"
proof (cases s)
  case Nil
  then show ?thesis by (simp add: many1_def)
next
  case (Cons c cs)
  have "many p k [c] cs = k ([c] @ takeWhile p cs) (dropWhile p cs)"
    using assms by (rule many_deterministic)
  then show ?thesis using Cons by (simp add: many1_def)
qed

lemma lit_Cons_None: "c \<noteq> x \<Longrightarrow> lit (x # l) k (c # r) = None"
  by (simp add: lit_def)

lemma is_digit_simps [simp]:
  "\<not> is_digit CHR '':''" "\<not> is_digit CHR ''.''" "\<not> is_digit CHR ''e''" "\<not> is_digit CHR '',''"
  "\<not> is_digit CHR ''_''" "\<not> is_digit CHR ''+''" "\<not> is_digit CHR ''-''"
  by (simp_all add: is_digit_def)

lemma digits_then_lit:
  assumes "\<not> is_digit x"
  shows "many1 is_digit (\<lambda>a. lit (x # l) (K a)) s =
           (if takeWhile is_digit s = [] \<or> \<not> prefix (x # l) (dropWhile is_digit s) then None
            else K (takeWhile is_digit s) (drop (Suc (length l)) (dropWhile is_digit s)))"
proof -
  have "\<And>a c r. is_digit c \<Longrightarrow> lit (x # l) (K a) (c # r) = None"
    using assms by (auto intro: lit_Cons_None)
  then have "many1 is_digit (\<lambda>a. lit (x # l) (K a)) s =
      (if takeWhile is_digit s = [] then None
       else lit (x # l) (K (takeWhile is_digit s)) (dropWhile is_digit s))"
    by (rule many1_deterministic)
  then show ?thesis by (simp add: lit_def)
qed

subsection \<open>Searching for the elapsed-time token\<close>

lemma digit_run:
  assumes "list_all is_digit m" and "\<not> is_digit x"
  shows "takeWhile is_digit (m @ x # r) = m" and "dropWhile is_digit (m @ x # r) = x # r"
  using assms by (induction m) auto

lemma digit_string_digits: "digit_string s \<Longrightarrow> list_all is_digit s"
  by (simp add: digit_string_def)

lemma elapsed_match_here_token:
  assumes "digit_string m" and "digit_string w" and "digit_string d"
  shows "elapsed_match_here (elapsed_token m w d @ post) = Some (m, w @ ''.'' @ d)"
proof -
  have m: "list_all is_digit m" "m \<noteq> []" and w: "list_all is_digit w" "w \<noteq> []"
    and d: "list_all is_digit d" "d \<noteq> []"
    using assms by (simp_all add: digit_string_def)
  have "elapsed_match_here (m @ CHR '':'' # w @ CHR ''.'' # d @ CHR ''e'' # ''lapsed'' @ post)
          = Some (m, w @ ''.'' @ d)"
    unfolding elapsed_match_here_def
    by (simp add: digits_then_lit digit_run m w d)
  then show ?thesis by (simp add: elapsed_token_def)
qed

lemma split_at_run:
  assumes "prefix l (dropWhile P s)"
  shows "s = takeWhile P s @ l @ drop (length l) (dropWhile P s)"
proof -
  obtain r where "dropWhile P s = l @ r"
    using assms by (auto simp: prefix_def)
  then have "takeWhile P s @ l @ drop (length l) (dropWhile P s) = takeWhile P s @ dropWhile P s"
    by simp
  then show ?thesis by simp
qed

lemma elapsed_match_here_Some:
  assumes "elapsed_match_here s = Some g"
  shows "\<exists>m w d post. s = elapsed_token m w d @ post \<and> digit_string m \<and> digit_string w \<and>
           digit_string d \<and> g = (m, w @ ''.'' @ d)"
proof -
  define m where "m = takeWhile is_digit s"
  define r1 where "r1 = drop 1 (dropWhile is_digit s)"
  define w where "w = takeWhile is_digit r1"
  define r2 where "r2 = drop 1 (dropWhile is_digit r1)"
  define d where "d = takeWhile is_digit r2"
  define post where "post = drop (length ''elapsed'') (dropWhile is_digit r2)"
  have all: "m \<noteq> [] \<and> prefix '':'' (dropWhile is_digit s) \<and> w \<noteq> [] \<and>
      prefix ''.'' (dropWhile is_digit r1) \<and> d \<noteq> [] \<and> prefix ''elapsed'' (dropWhile is_digit r2) \<and>
      g = (m, w @ ''.'' @ d)"
    using assms unfolding elapsed_match_here_def m_def r1_def w_def r2_def d_def
    by (simp add: digits_then_lit split: if_splits)
  have s: "s = m @ '':'' @ r1"
    using all split_at_run [of "'':''" is_digit s] unfolding m_def r1_def by simp
  have r1: "r1 = w @ ''.'' @ r2"
    using all split_at_run [of "''.''" is_digit r1] unfolding w_def r2_def by simp
  have r2: "r2 = d @ ''elapsed'' @ post"
    using all split_at_run [of "''elapsed''" is_digit r2] unfolding d_def post_def by simp
  have "digit_string m" "digit_string w" "digit_string d"
    using all unfolding digit_string_def m_def w_def d_def
    by (auto simp: list_all_iff dest: set_takeWhileD)
  moreover have "s = elapsed_token m w d @ post"
    using s r1 r2 by (simp add: elapsed_token_def)
  ultimately show ?thesis using all by blast
qed

lemma re_search_elapsed_skip:
  assumes "\<And>i. i < length pre \<Longrightarrow> elapsed_match_here (drop i (pre @ rest)) = None"
  shows "re_search_elapsed (pre @ rest) = re_search_elapsed rest"
  using assms
proof (induction pre)
  case Nil
  show ?case by simp
next
  case (Cons c pre)
  have "elapsed_match_here (c # pre @ rest) = None"
    using Cons.prems [of 0] by simp
  moreover have "re_search_elapsed (pre @ rest) = re_search_elapsed rest"
  proof (rule Cons.IH)
    fix i assume "i < length pre"
    then show "elapsed_match_here (drop i (pre @ rest)) = None"
      using Cons.prems [of "Suc i"] by simp
  qed
  ultimately show ?case by simp
qed

lemma re_search_elapsed_here:
  "elapsed_match_here s = Some g \<Longrightarrow> re_search_elapsed s = Some g"
  by (cases s) simp_all

lemma re_search_elapsed_Some:
  assumes "re_search_elapsed s = Some g"
  shows "\<exists>pre rest. s = pre @ rest \<and> elapsed_match_here rest = Some g"
  using assms
proof (induction s)
  case Nil
  then show ?case by simp
next
  case (Cons c cs)
  show ?case
  proof (cases "elapsed_match_here (c # cs)")
    case None
    then have "re_search_elapsed cs = Some g" using Cons.prems by simp
    then obtain pre rest where "cs = pre @ rest" "elapsed_match_here rest = Some g"
      using Cons.IH by blast
    then have "c # cs = (c # pre) @ rest \<and> elapsed_match_here rest = Some g" by simp
    then show ?thesis by blast
  next
    case (Some h)
    then have "h = g" using Cons.prems by simp
    then have "c # cs = [] @ (c # cs) \<and> elapsed_match_here (c # cs) = Some g"
      using Some by simp
    then show ?thesis by blast
  qed
qed

lemma re_search_elapsed_None_iff:
  "re_search_elapsed s = None \<longleftrightarrow> \<not> contains_elapsed_token s"
proof
  assume none: "re_search_elapsed s = None"
  show "\<not> contains_elapsed_token s"
  proof
    assume "contains_elapsed_token s"
    then obtain pre m w d post where s: "s = pre @ elapsed_token m w d @ post"
      and dg: "digit_string m" "digit_string w" "digit_string d"
      unfolding contains_elapsed_token_def by blast
    have here: "elapsed_match_here (elapsed_token m w d @ post) = Some (m, w @ ''.'' @ d)"
      using dg by (rule elapsed_match_here_token)
    have "re_search_elapsed s \<noteq> None"
      unfolding s
    proof (induction pre)
      case Nil
      then show ?case using re_search_elapsed_here [OF here] by simp
    next
      case (Cons c pre)
      then show ?case by (simp split: option.splits)
    qed
    then show False using none by simp
  qed
next
  assume no: "\<not> contains_elapsed_token s"
  show "re_search_elapsed s = None"
  proof (rule ccontr)
    assume "re_search_elapsed s \<noteq> None"
    then obtain g where "re_search_elapsed s = Some g" by auto
    then obtain pre rest where "s = pre @ rest" "elapsed_match_here rest = Some g"
      using re_search_elapsed_Some by blast
    then have "contains_elapsed_token s"
      unfolding contains_elapsed_token_def
      using elapsed_match_here_Some [of rest g] by blast
    then show False using no by simp
  qed
qed

lemma re_search_elapsed_first:
  assumes "first_elapsed_token s pre m w d post"
  shows "re_search_elapsed s = Some (m, w @ ''.'' @ d)"
proof -
  have s: "s = pre @ elapsed_token m w d @ post"
    and dg: "digit_string m" "digit_string w" "digit_string d"
    and least: "\<And>pre' m' w' d' post'.
         s = pre' @ elapsed_token m' w' d' @ post' \<Longrightarrow> digit_string m' \<Longrightarrow> digit_string w' \<Longrightarrow>
         digit_string d' \<Longrightarrow> length pre \<le> length pre'"
    using assms unfolding first_elapsed_token_def by blast+
  have here: "elapsed_match_here (elapsed_token m w d @ post) = Some (m, w @ ''.'' @ d)"
    using dg by (rule elapsed_match_here_token)
  have "re_search_elapsed (pre @ elapsed_token m w d @ post)
          = re_search_elapsed (elapsed_token m w d @ post)"
  proof (rule re_search_elapsed_skip)
    fix i assume i: "i < length pre"
    show "elapsed_match_here (drop i (pre @ elapsed_token m w d @ post)) = None"
    proof (rule ccontr)
      assume "elapsed_match_here (drop i (pre @ elapsed_token m w d @ post)) \<noteq> None"
      then obtain g where "elapsed_match_here (drop i s) = Some g" using s by auto
      then obtain m' w' d' post' where "drop i s = elapsed_token m' w' d' @ post'"
        "digit_string m'" "digit_string w'" "digit_string d'"
        using elapsed_match_here_Some by blast
      then have "s = take i s @ elapsed_token m' w' d' @ post'"
        by (metis append_take_drop_id)
      then have "length pre \<le> length (take i s)"
        using least \<open>digit_string m'\<close> \<open>digit_string w'\<close> \<open>digit_string d'\<close> by blast
      then show False using i by simp
    qed
  qed
  then show ?thesis using re_search_elapsed_here [OF here] s by simp
qed

lemma first_elapsed_token_exists:
  assumes "contains_elapsed_token s"
  shows "\<exists>pre m w d post. first_elapsed_token s pre m w d post"
proof -
  let ?P = "\<lambda>(pre, m, w, d, post). s = pre @ elapsed_token m w d @ post \<and> digit_string m \<and>
      digit_string w \<and> digit_string d"
  obtain x where "?P x"
    using assms unfolding contains_elapsed_token_def by auto
  then obtain y where y: "?P y" and least: "\<And>z. ?P z \<Longrightarrow> length (fst y) \<le> length (fst z)"
    using ex_has_least_nat [of ?P x "\<lambda>x. length (fst x)"] by blast
  obtain pre m w d post where yy: "y = (pre, m, w, d, post)" by (cases y)
  have "first_elapsed_token s pre m w d post"
    unfolding first_elapsed_token_def
    using y least [of "(_, _, _, _, _)"] unfolding yy by auto
  then show ?thesis by blast
qed

subsection \<open>Rounding to a double\<close>

lemma bit_length_le: "n < 2 ^ b \<Longrightarrow> bit_length n \<le> b"
proof (induction b arbitrary: n)
  case 0
  then show ?case by (simp add: bit_length.simps)
next
  case (Suc b)
  show ?case
  proof (cases "n = 0")
    case True
    then show ?thesis by (simp add: bit_length.simps)
  next
    case False
    have "n div 2 < 2 ^ b"
      using Suc.prems by simp
    then have "bit_length (n div 2) \<le> b"
      by (rule Suc.IH)
    then show ?thesis
      using False by (subst bit_length.simps) simp
  qed
qed

lemma round_half_even_of_int: "round_half_even (of_int i) = i"
  by (simp add: round_half_even_def)

lemma nearest_double_dyadic:
  assumes a: "\<bar>a\<bar> < 2 ^ 53" and j: "j \<le> 1074"
  shows "nearest_double (of_int a / 2 ^ j) = of_int a / 2 ^ j"
proof -
  define x :: rat where "x = of_int a / 2 ^ j"
  define N :: int where "N = \<bar>a\<bar> * 2 ^ (1074 - j)"
  define k where "k = bit_length (nat N) - 53"
  define M :: int where "M = \<bar>a\<bar> * 2 ^ (1074 - j - k)"
  have p: "(2::rat) ^ 1074 = 2 ^ j * 2 ^ (1074 - j)"
    using j by (simp flip: power_add)
  have ax: "\<bar>x\<bar> = of_int \<bar>a\<bar> / 2 ^ j"
    by (simp add: x_def)
  have y: "\<bar>x\<bar> * 2 ^ 1074 = of_int N"
    unfolding ax p N_def by simp
  have "N < 2 ^ 53 * 2 ^ (1074 - j)"
    unfolding N_def using a by simp
  then have "nat N < 2 ^ (53 + (1074 - j))"
    by (simp add: power_add nat_less_iff N_def)
  then have "bit_length (nat N) \<le> 53 + (1074 - j)"
    by (rule bit_length_le)
  then have k: "k \<le> 1074 - j"
    by (simp add: k_def)
  then have "(2::int) ^ (1074 - j) = 2 ^ (1074 - j - k) * 2 ^ k"
    by (simp flip: power_add)
  then have NM: "N = M * 2 ^ k"
    by (simp add: N_def M_def)
  have q: "of_int N / 2 ^ k = (of_int M :: rat)"
    unfolding NM by simp
  have r: "(of_int M :: rat) * 2 ^ k / 2 ^ 1074 = \<bar>x\<bar>"
  proof -
    have "(of_int M :: rat) * 2 ^ k = of_int N"
      unfolding NM by simp
    also have "\<dots> = \<bar>x\<bar> * 2 ^ 1074"
      by (simp only: y)
    finally show ?thesis by simp
  qed
  have "nearest_double x = (if x < 0 then - \<bar>x\<bar> else \<bar>x\<bar>)"
    unfolding nearest_double_def Let_def y floor_of_int k_def [symmetric] q round_half_even_of_int r
    by (rule refl)
  then show ?thesis
    unfolding x_def [symmetric] by simp
qed

lemma round_double_dyadic:
  assumes a: "\<bar>a\<bar> < 2 ^ 53" and j: "j \<le> 1074"
  shows "round_double (of_int a / 2 ^ j) = Finite_float (of_int a / 2 ^ j)"
proof -
  define x :: rat where "x = of_int a / 2 ^ j"
  define B :: rat where "B = 2 ^ 1024"
  have "\<bar>x\<bar> = \<bar>of_int a\<bar> / 2 ^ j"
    by (simp add: x_def)
  also have "\<dots> \<le> \<bar>of_int a\<bar> / 1"
    by (rule divide_left_mono) simp_all
  also have "\<dots> = of_int \<bar>a\<bar>"
    by simp
  also have "\<dots> < 2 ^ 53"
    using a by (simp only: of_int_less_numeral_power_cancel_iff)
  also have "\<dots> < B"
    by (simp add: B_def)
  finally have lt: "\<bar>x\<bar> < B" .
  have "round_double x = (if B \<le> x then Pos_inf else if x \<le> - B then Neg_inf else Finite_float x)"
    unfolding round_double_def Let_def x_def nearest_double_dyadic [OF assms] B_def
    by (rule refl)
  then show ?thesis
    using lt unfolding x_def [symmetric] by (simp add: abs_less_iff)
qed

text \<open>
  The ints that a float cannot hold: \<open>nearest_double\<close> reaches \<open>2 ^ 1024\<close> from the
  midpoint \<open>2 ^ 1024 - 2 ^ 970\<close> between the largest double and \<open>2 ^ 1024\<close> on, a
  tie that goes to the even neighbour, and nowhere below it.
\<close>

lemma bit_length_gt: "2 ^ b \<le> n \<Longrightarrow> b < bit_length n"
proof (induction b arbitrary: n)
  case 0
  then have "n \<noteq> 0" by auto
  then show ?case by (subst bit_length.simps) simp
next
  case (Suc b)
  have "(0::nat) < 2 ^ Suc b" by simp
  then have "n \<noteq> 0" using Suc.prems by linarith
  moreover have "2 ^ b \<le> n div 2"
    using Suc.prems by simp
  then have "b < bit_length (n div 2)"
    by (rule Suc.IH)
  ultimately show ?case by (subst bit_length.simps) simp
qed

lemma bit_length_upper: "n < 2 ^ bit_length n"
proof (induction n rule: bit_length.induct)
  case (1 n)
  show ?case
  proof (cases "n = 0")
    case True
    then show ?thesis by simp
  next
    case False
    then have "n div 2 < 2 ^ bit_length (n div 2)"
      by (rule 1)
    then have "n < 2 * 2 ^ bit_length (n div 2)"
      by linarith
    then show ?thesis
      using False by (subst bit_length.simps) simp
  qed
qed

lemma bit_length_lower: "n \<noteq> 0 \<Longrightarrow> 2 ^ (bit_length n - 1) \<le> n"
proof (induction n rule: bit_length.induct)
  case (1 n)
  show ?case
  proof (cases "n div 2 = 0")
    case True
    then have "bit_length (n div 2) = 0"
      by (simp add: bit_length.simps)
    then show ?thesis
      using 1(2) by (subst bit_length.simps) simp
  next
    case False
    then have "2 ^ (bit_length (n div 2) - 1) \<le> n div 2"
      using 1 by simp
    moreover have "0 < bit_length (n div 2)"
      using False by (subst bit_length.simps) simp
    ultimately have "2 ^ bit_length (n div 2) \<le> 2 * (n div 2)"
      by (cases "bit_length (n div 2)") simp_all
    then have "2 ^ bit_length (n div 2) \<le> n"
      by linarith
    then show ?thesis
      using 1(2) by (subst bit_length.simps) simp
  qed
qed

lemma round_half_even_le: "x \<le> of_int m \<Longrightarrow> round_half_even x \<le> m"
proof -
  assume x: "x \<le> of_int m"
  then have f: "\<lfloor>x\<rfloor> \<le> m"
    by (simp add: floor_le_iff)
  show ?thesis
  proof (cases "\<lfloor>x\<rfloor> = m")
    case True
    then have "x = of_int \<lfloor>x\<rfloor>"
      using x of_int_floor_le [of x] by simp
    then have "round_half_even x = \<lfloor>x\<rfloor>"
      by (metis round_half_even_of_int)
    then show ?thesis using f by simp
  next
    case False
    then have "\<lfloor>x\<rfloor> + 1 \<le> m" using f by simp
    then show ?thesis
      by (auto simp: round_half_even_def Let_def)
  qed
qed

lemma round_half_even_ge: "of_int m \<le> x \<Longrightarrow> m \<le> round_half_even x"
proof -
  assume "of_int m \<le> x"
  then have "m \<le> \<lfloor>x\<rfloor>"
    by (simp add: le_floor_iff)
  then show ?thesis
    by (auto simp: round_half_even_def Let_def)
qed

lemma round_half_even_below_half:
  assumes "x < of_int m - 1 / 2"
  shows "round_half_even x < m"
proof -
  have f: "\<lfloor>x\<rfloor> < m"
    using assms by (simp add: floor_less_iff)
  show ?thesis
  proof (cases "\<lfloor>x\<rfloor> = m - 1")
    case True
    then have "x - of_int \<lfloor>x\<rfloor> < 1 / 2"
      using assms by simp
    then show ?thesis
      using f by (simp add: round_half_even_def Let_def)
  next
    case False
    then have "\<lfloor>x\<rfloor> + 1 < m" using f by simp
    then show ?thesis
      by (auto simp: round_half_even_def Let_def)
  qed
qed

lemma round_half_even_from_half:
  assumes "of_int m - 1 / 2 \<le> x" and "even m"
  shows "m \<le> round_half_even x"
proof (cases "of_int m \<le> x")
  case True
  then show ?thesis by (rule round_half_even_ge)
next
  case False
  have "of_int (m - 1) \<le> x"
    using assms(1) by simp
  then have "m - 1 \<le> \<lfloor>x\<rfloor>"
    by (simp only: le_floor_iff)
  moreover have "\<lfloor>x\<rfloor> < m"
    using False by (simp add: floor_less_iff)
  ultimately have f: "\<lfloor>x\<rfloor> = m - 1"
    by simp
  have "odd \<lfloor>x\<rfloor>"
    using assms(2) by (simp add: f)
  moreover have "\<not> x - of_int \<lfloor>x\<rfloor> < 1 / 2"
    using assms(1) by (simp add: f)
  ultimately show ?thesis
    by (simp add: round_half_even_def Let_def f)
qed


lemma units_floor:
  fixes y :: rat
  assumes "0 \<le> y"
  shows "of_nat (nat \<lfloor>y\<rfloor>) \<le> y" and "y < of_nat (nat \<lfloor>y\<rfloor>) + 1"
proof -
  have "0 \<le> \<lfloor>y\<rfloor>" using assms by simp
  then have eq: "(of_nat (nat \<lfloor>y\<rfloor>) :: rat) = of_int \<lfloor>y\<rfloor>"
    by simp
  show "of_nat (nat \<lfloor>y\<rfloor>) \<le> y"
    unfolding eq by (rule of_int_floor_le)
  show "y < of_nat (nat \<lfloor>y\<rfloor>) + 1"
    unfolding eq using floor_correct [of y] by simp
qed

lemma units_upper:
  fixes y :: rat
  assumes "0 \<le> y" and "y < 2 ^ c" and k: "k = bit_length (nat \<lfloor>y\<rfloor>) - 53"
  shows "of_int (round_half_even (y / 2 ^ k)) * 2 ^ k \<le> (2::rat) ^ c"
proof -
  define N where "N = nat \<lfloor>y\<rfloor>"
  define b where "b = bit_length N"
  have lo: "of_nat N \<le> y" and hi: "y < of_nat N + 1"
    unfolding N_def using units_floor [OF assms(1)] by simp_all
  have "(of_nat N :: rat) < 2 ^ c"
    using lo assms(2) by (rule le_less_trans)
  then have "N < 2 ^ c"
    by (simp only: of_nat_less_numeral_power_cancel_iff)
  then have bc: "b \<le> c"
    unfolding b_def by (rule bit_length_le)
  have "N < 2 ^ b"
    unfolding b_def by (rule bit_length_upper)
  then have "N + 1 \<le> 2 ^ b" by simp
  then have "(of_nat (N + 1) :: rat) \<le> of_nat (2 ^ b)"
    by (simp only: of_nat_le_iff)
  moreover have "(of_nat (N + 1) :: rat) = of_nat N + 1" and "(of_nat (2 ^ b) :: rat) = 2 ^ b"
    by simp_all
  ultimately have "(of_nat N :: rat) + 1 \<le> 2 ^ b"
    by (simp only:)
  with hi have yb: "y < 2 ^ b"
    by (rule less_le_trans)
  have kb: "k \<le> b"
    by (simp add: k b_def N_def)
  then have split: "(2::rat) ^ b = 2 ^ (b - k) * 2 ^ k"
    by (simp flip: power_add)
  have "y / 2 ^ k < 2 ^ (b - k)"
    using yb unfolding split by (simp add: divide_less_eq)
  then have "y / 2 ^ k \<le> of_int (2 ^ (b - k))"
    by simp
  then have "round_half_even (y / 2 ^ k) \<le> 2 ^ (b - k)"
    by (rule round_half_even_le)
  then have "(of_int (round_half_even (y / 2 ^ k)) :: rat) \<le> of_int (2 ^ (b - k))"
    by (simp only: of_int_le_iff)
  then have "(of_int (round_half_even (y / 2 ^ k)) :: rat) * 2 ^ k \<le> 2 ^ (b - k) * 2 ^ k"
    by (simp add: mult_le_cancel_right)
  also have "\<dots> = 2 ^ b"
    by (simp only: split)
  also have "\<dots> \<le> (2::rat) ^ c"
    using bc by (simp add: power_increasing)
  finally show ?thesis .
qed

lemma units_lower:
  fixes y :: rat
  assumes "2 ^ c \<le> y" and k: "k = bit_length (nat \<lfloor>y\<rfloor>) - 53"
  shows "(2::rat) ^ c \<le> of_int (round_half_even (y / 2 ^ k)) * 2 ^ k"
proof -
  define N where "N = nat \<lfloor>y\<rfloor>"
  define b where "b = bit_length N"
  have y0: "0 \<le> y"
    using assms(1) by (rule order_trans [rotated]) simp
  have lo: "of_nat N \<le> y"
    unfolding N_def using units_floor [OF y0] by simp
  have "of_int (2 ^ c) \<le> y"
    using assms(1) by simp
  then have "2 ^ c \<le> \<lfloor>y\<rfloor>"
    by (simp only: le_floor_iff)
  then have Nc: "2 ^ c \<le> N"
    by (simp add: N_def le_nat_iff)
  then have cb: "c < b"
    unfolding b_def by (rule bit_length_gt)
  have "N \<noteq> 0"
    using Nc by (metis not_one_le_zero one_le_numeral one_le_power order_trans)
  then have "2 ^ (b - 1) \<le> N"
    unfolding b_def by (rule bit_length_lower)
  then have "(of_nat (2 ^ (b - 1)) :: rat) \<le> of_nat N"
    by (simp only: of_nat_le_iff)
  moreover have "(of_nat (2 ^ (b - 1)) :: rat) = 2 ^ (b - 1)"
    by simp
  ultimately have "(2::rat) ^ (b - 1) \<le> of_nat N"
    by (simp only:)
  then have yb: "2 ^ (b - 1) \<le> y"
    using lo by (rule order_trans)
  have kb: "k \<le> b - 1"
    using cb by (simp add: k b_def N_def)
  then have split: "(2::rat) ^ (b - 1) = 2 ^ (b - 1 - k) * 2 ^ k"
    by (simp flip: power_add)
  have "2 ^ (b - 1 - k) \<le> y / 2 ^ k"
    using yb unfolding split by (simp add: le_divide_eq)
  then have "of_int (2 ^ (b - 1 - k)) \<le> y / 2 ^ k"
    by simp
  then have "2 ^ (b - 1 - k) \<le> round_half_even (y / 2 ^ k)"
    by (rule round_half_even_ge)
  then have "(of_int (2 ^ (b - 1 - k)) :: rat) \<le> of_int (round_half_even (y / 2 ^ k))"
    by (simp only: of_int_le_iff)
  then have "(2::rat) ^ (b - 1 - k) * 2 ^ k \<le> of_int (round_half_even (y / 2 ^ k)) * 2 ^ k"
    by (simp add: mult_le_cancel_right)
  moreover have "(2::rat) ^ c \<le> 2 ^ (b - 1)"
    using cb by (simp add: power_increasing)
  ultimately show ?thesis
    unfolding split [symmetric] by (rule order_trans [rotated])
qed

lemma units_bit_length:
  fixes y :: rat
  assumes "2 ^ c \<le> y" and "y < 2 ^ Suc c"
  shows "bit_length (nat \<lfloor>y\<rfloor>) = Suc c"
proof -
  have y0: "0 \<le> y"
    using assms(1) by (rule order_trans [rotated]) simp
  have "of_int (2 ^ c) \<le> y"
    using assms(1) by simp
  then have "2 ^ c \<le> \<lfloor>y\<rfloor>"
    by (simp only: le_floor_iff)
  then have "2 ^ c \<le> nat \<lfloor>y\<rfloor>"
    by (simp add: le_nat_iff)
  then have "c < bit_length (nat \<lfloor>y\<rfloor>)"
    by (rule bit_length_gt)
  moreover have "(of_nat (nat \<lfloor>y\<rfloor>) :: rat) < 2 ^ Suc c"
    using units_floor(1) [OF y0] assms(2) by (rule le_less_trans)
  then have "nat \<lfloor>y\<rfloor> < 2 ^ Suc c"
    by (simp only: of_nat_less_numeral_power_cancel_iff)
  then have "bit_length (nat \<lfloor>y\<rfloor>) \<le> Suc c"
    by (rule bit_length_le)
  ultimately show ?thesis by simp
qed

lemma bit_length_0: "bit_length 0 = 0"
  by (subst bit_length.simps) simp

lemma nearest_double_0: "nearest_double 0 = 0"
  by (simp add: nearest_double_def bit_length_0 round_half_even_def)

lemma nearest_double_minus: "nearest_double (- x) = - nearest_double x"
proof (cases "x = 0")
  case True
  then show ?thesis
    by (simp add: nearest_double_0)
next
  case False
  show ?thesis
  proof (cases "x < 0")
    case True
    then have "\<not> - x < 0" by simp
    then show ?thesis
      unfolding nearest_double_def Let_def abs_minus_cancel using True by (simp only: if_True if_False minus_minus)
  next
    case neg: False
    then have "- x < 0" using False by simp
    then show ?thesis
      unfolding nearest_double_def Let_def abs_minus_cancel using neg by (simp only: if_True if_False)
  qed
qed

lemma nearest_double_of_nat:
  "nearest_double (of_nat n) =
     of_int (round_half_even
         (of_nat n * 2 ^ 1074 / 2 ^ (bit_length (nat \<lfloor>of_nat n * 2 ^ 1074 :: rat\<rfloor>) - 53)))
       * 2 ^ (bit_length (nat \<lfloor>of_nat n * 2 ^ 1074 :: rat\<rfloor>) - 53) / 2 ^ 1074"
proof -
  have "\<not> (of_nat n :: rat) < 0" and "\<bar>of_nat n :: rat\<bar> = of_nat n"
    by simp_all
  then show ?thesis
    unfolding nearest_double_def Let_def by (simp only: if_False)
qed

lemma nearest_double_of_nat_nonneg: "0 \<le> nearest_double (of_nat n)"
proof -
  have "0 \<le> round_half_even (of_nat n * 2 ^ 1074 / 2 ^ k)" for k
    by (rule round_half_even_ge) simp
  then have "(0::rat) \<le> of_int (round_half_even (of_nat n * 2 ^ 1074 / 2 ^ k))" for k
    by (simp only: of_int_0_le_iff)
  then show ?thesis
    unfolding nearest_double_of_nat by (intro divide_nonneg_pos mult_nonneg_nonneg) simp_all
qed

lemma nearest_double_of_nat_finite_iff:
  "nearest_double (of_nat n) < 2 ^ 1024 \<longleftrightarrow> int n < 2 ^ 1024 - 2 ^ 970"
proof -
  define U :: rat where "U = 2 ^ 1074"
  define y :: rat where "y = of_nat n * U"
  define k where "k = bit_length (nat \<lfloor>y\<rfloor>) - 53"
  define R :: rat where "R = of_int (round_half_even (y / 2 ^ k)) * 2 ^ k"
  have U: "0 < U" by (simp add: U_def)
  have nd: "nearest_double (of_nat n) = R / U"
    unfolding R_def k_def y_def U_def by (rule nearest_double_of_nat)
  have a: "(2::rat) ^ 2097 = 2 ^ 1023 * U" and b: "(2::rat) ^ 2098 = 2 ^ 1024 * U"
    and c: "(2::rat) ^ 2045 = 2 ^ 971 * U"
    by (simp_all add: U_def)
  have fin: "R / U < 2 ^ 1024 \<longleftrightarrow> R < 2 ^ 2098"
    unfolding b using U by (simp add: divide_less_eq)
  have y0: "0 \<le> y" using U by (simp add: y_def)
  have n_lt: "y < 2 ^ 1024 * U \<longleftrightarrow> int n < 2 ^ 1024" and n_ge: "2 ^ 1023 * U \<le> y \<longleftrightarrow> 2 ^ 1023 \<le> int n"
    using U by (simp_all add: y_def)
  consider (A) "y < 2 ^ 2097" | (B) "2 ^ 2097 \<le> y" "y < 2 ^ 2098" | (C) "2 ^ 2098 \<le> y"
    by linarith
  then have "R < 2 ^ 2098 \<longleftrightarrow> int n < 2 ^ 1024 - 2 ^ 970"
  proof cases
    case A
    have "R \<le> 2 ^ 2097"
      unfolding R_def using y0 A k_def by (rule units_upper)
    also have "\<dots> < (2::rat) ^ 2098" by simp
    finally have "R < 2 ^ 2098" .
    moreover have "int n < 2 ^ 1023"
      using A n_ge unfolding a by linarith
    then have "int n < 2 ^ 1024 - 2 ^ 970" by simp
    ultimately show ?thesis by simp
  next
    case C
    have "2 ^ 2098 \<le> R"
      unfolding R_def using C k_def by (rule units_lower)
    moreover have "\<not> int n < 2 ^ 1024"
      using C n_lt unfolding b by linarith
    then have "\<not> int n < 2 ^ 1024 - 2 ^ 970" by simp
    ultimately show ?thesis by simp
  next
    case B
    have "y < 2 ^ Suc 2097" using B(2) by simp
    with B(1) have "bit_length (nat \<lfloor>y\<rfloor>) = Suc 2097"
      by (rule units_bit_length)
    then have k: "k = 2045" by (simp add: k_def)
    have q: "y / 2 ^ k = of_nat n / 2 ^ 971"
      unfolding k c y_def using U by simp
    have R: "R = of_int (round_half_even (of_nat n / 2 ^ 971)) * 2 ^ 2045"
      unfolding R_def q unfolding k by (rule refl)
    show ?thesis
    proof (cases "int n < 2 ^ 1024 - 2 ^ 970")
      case True
      then have "(of_nat n :: rat) < 2 ^ 1024 - 2 ^ 970"
        by simp
      then have "(of_nat n :: rat) / 2 ^ 971 < of_int (2 ^ 53) - 1 / 2"
        by (simp add: divide_less_eq)
      then have "round_half_even (of_nat n / 2 ^ 971) < 2 ^ 53"
        by (rule round_half_even_below_half)
      then have "round_half_even (of_nat n / 2 ^ 971) \<le> 2 ^ 53 - 1"
        by simp
      then have "(of_int (round_half_even (of_nat n / 2 ^ 971)) :: rat) \<le> of_int (2 ^ 53 - 1)"
        by (simp only: of_int_le_iff)
      then have "R \<le> of_int (2 ^ 53 - 1) * 2 ^ 2045"
        unfolding R by (simp add: mult_le_cancel_right)
      also have "\<dots> < (2::rat) ^ 2098" by simp
      finally show ?thesis using True by simp
    next
      case False
      then have "(2::rat) ^ 1024 - 2 ^ 970 \<le> of_nat n"
        by simp
      then have "of_int (2 ^ 53) - 1 / 2 \<le> (of_nat n :: rat) / 2 ^ 971"
        by (simp add: le_divide_eq)
      moreover have "even ((2::int) ^ 53)" by simp
      ultimately have "2 ^ 53 \<le> round_half_even (of_nat n / 2 ^ 971)"
        by (rule round_half_even_from_half)
      then have "(of_int (2 ^ 53) :: rat) \<le> of_int (round_half_even (of_nat n / 2 ^ 971))"
        by (simp only: of_int_le_iff)
      then have "of_int (2 ^ 53) * 2 ^ 2045 \<le> R"
        unfolding R by (simp add: mult_le_cancel_right)
      moreover have "(of_int (2 ^ 53) :: rat) * 2 ^ 2045 = 2 ^ 2098" by simp
      ultimately show ?thesis using False by simp
    qed
  qed
  then show ?thesis
    unfolding nd fin .
qed

lemma round_double_of_int:
  "round_double (of_int i) =
     (if \<bar>i\<bar> < 2 ^ 1024 - 2 ^ 970 then Finite_float (nearest_double (of_int i))
      else if 0 < i then Pos_inf else Neg_inf)"
proof -
  define B :: rat where "B = 2 ^ 1024"
  define f where "f = nearest_double (of_nat (nat \<bar>i\<bar>))"
  have f0: "0 \<le> f"
    unfolding f_def by (rule nearest_double_of_nat_nonneg)
  have B0: "0 < B" by (simp add: B_def)
  have fin: "f < B \<longleftrightarrow> \<bar>i\<bar> < 2 ^ 1024 - 2 ^ 970"
    unfolding f_def B_def nearest_double_of_nat_finite_iff by simp
  have rd: "round_double x =
      (if B \<le> nearest_double x then Pos_inf
       else if nearest_double x \<le> - B then Neg_inf else Finite_float (nearest_double x))" for x
    unfolding round_double_def Let_def B_def by (rule refl)
  show ?thesis
  proof (cases "0 \<le> i")
    case True
    then have "(of_int i :: rat) = of_nat (nat \<bar>i\<bar>)" by simp
    then have "nearest_double (of_int i) = f"
      by (simp only: f_def)
    moreover have "i = 0 \<Longrightarrow> \<bar>i\<bar> < 2 ^ 1024 - 2 ^ 970" by simp
    ultimately show ?thesis
      unfolding rd using f0 B0 fin True by (auto simp: not_le)
  next
    case False
    then have "(of_int i :: rat) = - of_nat (nat \<bar>i\<bar>)" by simp
    then have "nearest_double (of_int i) = - f"
      by (simp only: f_def nearest_double_minus)
    then show ?thesis
      unfolding rd using f0 B0 fin False by (auto simp: not_le)
  qed
qed

lemma float_of_int_threshold:
  "float_of_int i =
     (if \<bar>i\<bar> < 2 ^ 1024 - 2 ^ 970 then Inr (Finite_float (nearest_double (of_int i)))
      else Inl OverflowError)"
  by (simp add: float_of_int_def round_double_of_int)

subsection \<open>Reading numbers\<close>

lemma strip_no_space:
  assumes "list_all (\<lambda>c. \<not> is_space c) s"
  shows "strip s = s"
proof -
  have "dropWhile is_space s = s"
    using assms by (simp add: list_all_iff)
  moreover have "dropWhile is_space (rev s) = rev s"
    using assms by (intro dropWhile_id) (simp add: list_all_iff)
  ultimately show ?thesis by (simp add: strip_def)
qed

lemma digits_no_space: "list_all is_digit s \<Longrightarrow> list_all (\<lambda>c. \<not> is_space c) s"
  by (auto simp: list_all_iff dest: digit_not_space)

lemma int_digits_digits:
  "list_all is_digit s \<Longrightarrow> int_digits acc s = Some (foldl (\<lambda>a c. 10 * a + digit_val c) acc s)"
  by (induction acc s rule: int_digits.induct) simp_all

lemma int_unsigned_digits:
  assumes "digit_string s"
  shows "int_unsigned s = Some (nat_of_digits s)"
proof -
  obtain c cs where s: "s = c # cs" and c: "is_digit c" and cs: "list_all is_digit cs"
    using assms by (cases s) (auto simp: digit_string_def)
  show ?thesis
    unfolding s int_unsigned_def nat_of_digits_def
    using c int_digits_digits [OF cs] by simp
qed

lemma py_int_digits:
  assumes "digit_string s"
  shows "py_int s =
           (if int_max_str_digits < length s then Inl ValueError else Inr (int (nat_of_digits s)))"
proof -
  obtain c cs where s: "s = c # cs" and c: "is_digit c"
    using assms by (cases s) (auto simp: digit_string_def)
  have "strip s = s"
    using assms by (simp add: strip_no_space digits_no_space digit_string_def)
  moreover have "c \<noteq> CHR ''+''" "c \<noteq> CHR ''-''"
    using c by auto
  moreover have "filter is_digit s = s"
    using assms by (simp add: digit_string_def list_all_iff)
  ultimately show ?thesis
    using int_unsigned_digits [OF assms] by (simp add: py_int_def s)
qed

lemma py_float_decimal:
  assumes "digit_string w" and "digit_string d"
  shows "py_float (w @ CHR ''.'' # d) = Inr (round_double (decimal_value w d))"
proof -
  have "list_all is_digit w" "w \<noteq> []" "list_all is_digit d" "d \<noteq> []"
    using assms by (simp_all add: digit_string_def)
  then show ?thesis
    by (simp add: py_float_def digit_run decimal_value_def)
qed

lemma extract_and_convert_time_first:
  assumes "first_elapsed_token output pre m w d post"
  shows "extract_and_convert_time output =
           (if int_max_str_digits < length m then Inl ValueError
            else if 2 ^ 1024 - 2 ^ 970 \<le> int (nat_of_digits m) * 60 then Inl OverflowError
            else Inr (Some (float_add
                   (Finite_float (nearest_double (of_int (int (nat_of_digits m) * 60))))
                   (round_double (decimal_value w d)))))"
proof -
  have dg: "digit_string m" "digit_string w" "digit_string d"
    using assms by (simp_all add: first_elapsed_token_def)
  have "re_search_elapsed output = Some (m, w @ ''.'' @ d)"
    using assms by (rule re_search_elapsed_first)
  moreover have "\<bar>int (nat_of_digits m) * 60\<bar> = int (nat_of_digits m) * 60"
    by simp
  ultimately show ?thesis
    unfolding extract_and_convert_time_def float_of_int_threshold
    by (simp add: py_int_digits [OF dg(1)] py_float_decimal [OF dg(2,3)] not_less
        del: of_int_mult of_int_of_nat_eq)
qed

lemma nat_of_digits_nines: "nat_of_digits (replicate n CHR ''9'') = 10 ^ n - 1"
proof -
  have "foldl (\<lambda>a c. 10 * a + digit_val c) a (replicate n CHR ''9'') = 10 ^ n * (a + 1) - 1" for a
  proof (induction n arbitrary: a)
    case 0
    show ?case by simp
  next
    case (Suc n)
    have "digit_val CHR ''9'' = 9" by (simp add: digit_val_def)
    then show ?case using Suc [of "10 * a + 9"] by (simp add: algebra_simps)
  qed
  from this [of 0] show ?thesis by (simp add: nat_of_digits_def)
qed

lemma digit_string_replicate: "0 < n \<Longrightarrow> is_digit c \<Longrightarrow> digit_string (replicate n c)"
  by (auto simp: digit_string_def list_all_iff)

lemma first_elapsed_token_Nil:
  assumes "digit_string m" and "digit_string w" and "digit_string d"
  shows "first_elapsed_token (elapsed_token m w d @ post) [] m w d post"
  using assms by (simp add: first_elapsed_token_def)

subsection \<open>Table lines and their fields\<close>

lemma run_split:
  assumes "list_all P xs" and "\<not> P x"
  shows "takeWhile P (xs @ x # r) = xs" and "dropWhile P (xs @ x # r) = x # r"
  using assms by (induction xs) auto

lemma one_Cons_None: "\<not> p c \<Longrightarrow> one p k (c # r) = None"
  by (simp add: one_def)

lemma many1_Cons_None: "\<not> p c \<Longrightarrow> many1 p k (c # r) = None"
  by (simp add: many1_def)

lemma re_match_table_line_scan: "re_match_table_line line = table_line_scan line"
proof -
  let ?k3 = "\<lambda>_::string. one is_digit (\<lambda>_. Some ())"
  let ?k2 = "\<lambda>_::string. many1 is_space ?k3"
  let ?k1 = "\<lambda>_::string. many1 is_digit ?k2"
  have e1: "many is_space ?k1 [] line = ?k1 ([] @ takeWhile is_space line) (dropWhile is_space line)"
    by (rule many_deterministic) (auto intro: many1_Cons_None dest: digit_not_space)
  have e2: "many1 is_digit ?k2 t =
      (if takeWhile is_digit t = [] then None else ?k2 (takeWhile is_digit t) (dropWhile is_digit t))" for t
    by (rule many1_deterministic) (auto intro: many1_Cons_None dest: digit_not_space)
  have e3: "many1 is_space ?k3 t =
      (if takeWhile is_space t = [] then None else ?k3 (takeWhile is_space t) (dropWhile is_space t))" for t
    by (rule many1_deterministic) (auto intro: one_Cons_None dest: digit_not_space)
  have e4: "(one is_digit (\<lambda>_. Some ()) t = Some ()) \<longleftrightarrow> (t \<noteq> [] \<and> is_digit (hd t))" for t
    by (cases t) (simp_all add: one_def)
  show ?thesis
    unfolding re_match_table_line_def e1 e2 e3 table_line_scan_def Let_def
    by (simp add: e4 del: dropWhile_eq_Nil_conv takeWhile_eq_Nil_iff)
qed

lemma table_line_shape_scan: "table_line_shape line = table_line_scan line"
proof
  assume "table_line_shape line"
  then obtain ws ds sp c rest where line: "line = ws @ ds @ sp @ c # rest"
    and ws: "list_all is_space ws" and ds: "digit_string ds"
    and sp: "sp \<noteq> []" "list_all is_space sp" and c: "is_digit c"
    unfolding table_line_shape_def by blast
  obtain d0 ds' where ds': "ds = d0 # ds'" "is_digit d0" "list_all is_digit ds'"
    using ds by (cases ds) (auto simp: digit_string_def)
  obtain s0 sp' where sp': "sp = s0 # sp'" "is_space s0" "list_all is_space sp'"
    using sp by (cases sp) auto
  have r1: "dropWhile is_space line = ds @ sp @ c # rest"
    unfolding line using run_split(2) [OF ws, of d0 "ds' @ sp @ c # rest"] ds' digit_not_space by simp
  have nd: "\<not> is_digit s0" using sp' digit_not_space by blast
  have t2: "takeWhile is_digit (ds @ sp @ c # rest) = ds"
    and r2: "dropWhile is_digit (ds @ sp @ c # rest) = sp @ c # rest"
    using run_split [of is_digit ds s0 "sp' @ c # rest"] ds nd sp'
    by (simp_all add: digit_string_def)
  have nc: "\<not> is_space c" using c digit_not_space by blast
  have t3: "takeWhile is_space (sp @ c # rest) = sp"
    and r3: "dropWhile is_space (sp @ c # rest) = c # rest"
    using run_split [of is_space sp c rest] sp nc by simp_all
  show "table_line_scan line"
    unfolding table_line_scan_def Let_def r1 t2 r2 t3 r3
    using ds sp c by (simp add: digit_string_def)
next
  define r1 where "r1 = dropWhile is_space line"
  define r2 where "r2 = dropWhile is_digit r1"
  define r3 where "r3 = dropWhile is_space r2"
  assume "table_line_scan line"
  then have h: "takeWhile is_digit r1 \<noteq> []" "takeWhile is_space r2 \<noteq> []" "r3 \<noteq> []" "is_digit (hd r3)"
    unfolding table_line_scan_def Let_def r1_def r2_def r3_def by blast+
  have "line = takeWhile is_space line @ r1" by (simp add: r1_def)
  also have "r1 = takeWhile is_digit r1 @ r2" by (simp add: r2_def)
  also have "r2 = takeWhile is_space r2 @ r3" by (simp add: r3_def)
  also have "r3 = hd r3 # tl r3" using h(3) by simp
  finally have "line = takeWhile is_space line @ takeWhile is_digit r1 @ takeWhile is_space r2 @ hd r3 # tl r3" .
  moreover have "list_all is_space (takeWhile is_space line)" "list_all is_digit (takeWhile is_digit r1)"
    "list_all is_space (takeWhile is_space r2)"
    by (auto simp: list_all_iff dest: set_takeWhileD)
  ultimately show "table_line_shape line"
    unfolding table_line_shape_def digit_string_def using h by blast
qed

lemma re_match_table_line_shape: "re_match_table_line line \<longleftrightarrow> table_line_shape line"
  by (simp only: re_match_table_line_scan table_line_shape_scan)

lemma fields_leading:
  assumes "list_all is_space ws"
  shows "line_fields (ws @ s) = line_fields s"
proof -
  have "dropWhile is_space (ws @ s) = dropWhile is_space s"
    using assms by (simp add: list_all_iff)
  then show ?thesis
    by (subst line_fields.simps, subst (2) line_fields.simps) simp
qed

lemma fields_word:
  assumes "list_all (\<lambda>x. \<not> is_space x) u" and "u \<noteq> []" and "is_space x"
  shows "line_fields (u @ x # r) = u # line_fields r"
proof -
  obtain c cs where u: "u = c # cs" "\<not> is_space c" "list_all (\<lambda>x. \<not> is_space x) cs"
    using assms by (cases u) auto
  have "takeWhile (\<lambda>x. \<not> is_space x) (cs @ x # r) = cs"
    and "dropWhile (\<lambda>x. \<not> is_space x) (cs @ x # r) = x # r"
    using run_split [of "\<lambda>x. \<not> is_space x" cs x r] u assms(3) by simp_all
  moreover have "line_fields (x # r) = line_fields r"
    using fields_leading [of "[x]" r] assms(3) by simp
  ultimately show ?thesis
    unfolding u using u(2) by (subst line_fields.simps) simp
qed

lemma table_line_shape_first_field:
  assumes "table_line_shape line"
  shows "line_fields line \<noteq> [] \<and> digit_string (line_fields line ! 0)"
proof -
  obtain ws ds sp c rest where line: "line = ws @ ds @ sp @ c # rest"
    and ws: "list_all is_space ws" and ds: "digit_string ds"
    and sp: "sp \<noteq> []" "list_all is_space sp" and c: "is_digit c"
    using assms unfolding table_line_shape_def by blast
  obtain s0 sp' where sp': "sp = s0 # sp'" "is_space s0"
    using sp by (cases sp) auto
  have "line_fields line = line_fields (ds @ s0 # sp' @ c # rest)"
    unfolding line using fields_leading [OF ws] sp' by simp
  also have "\<dots> = ds # line_fields (sp' @ c # rest)"
    using ds sp' by (intro fields_word) (simp_all add: digit_string_def digits_no_space)
  finally show ?thesis using ds by simp
qed

lemma fields_Nil: "dropWhile is_space s = [] \<Longrightarrow> line_fields s = []"
  by (subst line_fields.simps) (simp del: dropWhile_eq_Nil_conv)

lemma fields_Cons:
  "dropWhile is_space s = c # cs \<Longrightarrow>
   line_fields s = (c # takeWhile (\<lambda>x. \<not> is_space x) cs) # line_fields (dropWhile (\<lambda>x. \<not> is_space x) cs)"
  by (subst line_fields.simps) simp

lemma fields_spaces: "list_all is_space ws \<Longrightarrow> line_fields ws = []"
  by (rule fields_Nil) (simp add: list_all_iff)

lemma fields_trailing:
  assumes "list_all is_space ws"
  shows "line_fields (s @ ws) = line_fields s"
proof (induction s rule: line_fields.induct)
  case (1 s)
  show ?case
  proof (cases "dropWhile is_space s")
    case Nil
    then have "list_all is_space (s @ ws)"
      using assms by (auto simp: list_all_iff)
    then have "line_fields (s @ ws) = []" by (rule fields_spaces)
    then show ?thesis using fields_Nil [OF Nil] by simp
  next
    case (Cons c cs)
    have "\<not> (\<forall>x\<in>set s. is_space x)"
      using Cons dropWhile_eq_Nil_conv [of is_space s] by simp
    then have drop: "dropWhile is_space (s @ ws) = c # (cs @ ws)"
      using Cons by (auto simp: dropWhile_append)
    have tw: "takeWhile (\<lambda>x. \<not> is_space x) ws = []"
      using assms by (cases ws) simp_all
    have dw: "dropWhile (\<lambda>x. \<not> is_space x) ws = ws"
      using assms by (cases ws) simp_all
    show ?thesis
    proof (cases "\<forall>x\<in>set cs. \<not> is_space x")
      case True
      then have a: "takeWhile (\<lambda>x. \<not> is_space x) (cs @ ws) = cs"
        and b: "dropWhile (\<lambda>x. \<not> is_space x) (cs @ ws) = ws"
        and c': "takeWhile (\<lambda>x. \<not> is_space x) cs = cs"
        and d': "dropWhile (\<lambda>x. \<not> is_space x) cs = []"
        using tw dw by (simp_all add: takeWhile_append dropWhile_append)
      have "line_fields (s @ ws) = [c # cs]"
        using fields_Cons [OF drop] unfolding a b by (simp add: fields_spaces [OF assms])
      moreover have "line_fields s = [c # cs]"
        using fields_Cons [OF Cons] unfolding c' d' by (simp add: fields_spaces)
      ultimately show ?thesis by simp
    next
      case False
      then have a: "takeWhile (\<lambda>x. \<not> is_space x) (cs @ ws) = takeWhile (\<lambda>x. \<not> is_space x) cs"
        and b: "dropWhile (\<lambda>x. \<not> is_space x) (cs @ ws) = dropWhile (\<lambda>x. \<not> is_space x) cs @ ws"
        by (auto simp: takeWhile_append dropWhile_append)
      have "line_fields (s @ ws) = (c # takeWhile (\<lambda>x. \<not> is_space x) cs)
              # line_fields (dropWhile (\<lambda>x. \<not> is_space x) cs @ ws)"
        using fields_Cons [OF drop] unfolding a b .
      then show ?thesis
        using fields_Cons [OF Cons] "1.IH" [OF Cons] by simp
    qed
  qed
qed

lemma fields_strip: "line_fields (strip s) = line_fields s"
proof -
  define t where "t = dropWhile is_space s"
  have "line_fields s = line_fields (takeWhile is_space s @ t)" by (simp add: t_def)
  also have "\<dots> = line_fields t"
    by (rule fields_leading) (auto simp: list_all_iff dest: set_takeWhileD)
  finally have a: "line_fields s = line_fields t" .
  have "rev t = takeWhile is_space (rev t) @ dropWhile is_space (rev t)" by simp
  then have "t = rev (dropWhile is_space (rev t)) @ rev (takeWhile is_space (rev t))"
    by (metis rev_append rev_rev_ident)
  then have "line_fields t = line_fields (strip s @ rev (takeWhile is_space (rev t)))"
    by (simp add: strip_def t_def)
  also have "\<dots> = line_fields (strip s)"
    by (rule fields_trailing) (auto simp: list_all_iff dest: set_takeWhileD)
  finally show ?thesis using a by simp
qed

lemma strip_ends:
  assumes "\<not> list_all is_space s"
  shows "strip s \<noteq> [] \<and> \<not> is_space (hd (strip s)) \<and> \<not> is_space (last (strip s))"
proof -
  define t where "t = dropWhile is_space s"
  have t: "t \<noteq> []" "\<not> is_space (hd t)"
    using assms hd_dropWhile [of is_space s] by (auto simp: t_def list_all_iff)
  define u where "u = dropWhile is_space (rev t)"
  have "hd t \<in> set (rev t)" using t by simp
  then have u: "u \<noteq> []" "last u = last (rev t)"
    using t(2) dropWhile_last [of "hd t" "rev t" is_space] by (auto simp: u_def)
  have "\<not> is_space (hd u)"
    using u(1) hd_dropWhile [of is_space "rev t"] by (simp add: u_def)
  moreover have "strip s = rev u" by (simp add: strip_def t_def u_def)
  moreover have "last (rev t) = hd t" using t by (simp add: last_rev)
  ultimately show ?thesis using u t by (simp add: hd_rev last_rev)
qed

lemma re_split_ws_fields:
  "s \<noteq> [] \<Longrightarrow> \<not> is_space (hd s) \<Longrightarrow> \<not> is_space (last s) \<Longrightarrow> re_split_ws s = line_fields s"
proof (induction s rule: re_split_ws.induct)
  case (1 s)
  define u where "u = takeWhile (\<lambda>c. \<not> is_space c) s"
  define r where "r = dropWhile (\<lambda>c. \<not> is_space c) s"
  have s: "s = u @ r" by (simp add: u_def r_def)
  have u: "u \<noteq> []" "list_all (\<lambda>x. \<not> is_space x) u"
    using "1.prems" by (auto simp: u_def takeWhile_eq_Nil_iff list_all_iff dest: set_takeWhileD)
  show ?case
  proof (cases r)
    case Nil
    then have su: "s = u" using s by simp
    obtain c cs where ccs: "u = c # cs" using u by (cases u) auto
    have d: "dropWhile is_space u = c # cs"
      and t: "takeWhile (\<lambda>x. \<not> is_space x) cs = cs"
      and e: "dropWhile (\<lambda>x. \<not> is_space x) cs = []"
      using u ccs by (auto simp: list_all_iff)
    have "line_fields u = (c # takeWhile (\<lambda>x. \<not> is_space x) cs) # line_fields (dropWhile (\<lambda>x. \<not> is_space x) cs)"
      by (rule fields_Cons [OF d])
    also have "\<dots> = [u]"
      unfolding t e ccs using fields_spaces [of "[]"] by simp
    finally have "line_fields u = [u]" .
    moreover have "re_split_ws s = [s]"
      using Nil by (subst re_split_ws.simps) (simp add: r_def del: dropWhile_eq_Nil_conv)
    ultimately show ?thesis using su by simp
  next
    case (Cons c cs)
    have c: "is_space c"
      using Cons hd_dropWhile [of "\<lambda>c. \<not> is_space c" s] by (auto simp: r_def)
    define s' where "s' = dropWhile is_space cs"
    have split: "re_split_ws s = u # re_split_ws s'"
      using Cons by (subst re_split_ws.simps) (simp add: r_def u_def s'_def)
    have lasts: "last s = last (c # cs)" using s Cons by simp
    then have "cs \<noteq> []" using "1.prems"(3) c by auto
    then have lastcs: "last s = last cs" using lasts by simp
    then have "last cs \<in> set cs" "\<not> is_space (last cs)"
      using \<open>cs \<noteq> []\<close> "1.prems"(3) by simp_all
    then have s': "s' \<noteq> []" "last s' = last cs"
      using dropWhile_last [of "last cs" cs is_space] by (auto simp: s'_def)
    have hd: "\<not> is_space (hd s')"
      using s'(1) hd_dropWhile [of is_space cs] by (simp add: s'_def)
    have "re_split_ws s' = line_fields s'"
      using "1.IH" [of c cs] Cons s' hd lastcs "1.prems"(3) by (simp add: r_def s'_def)
    moreover have "line_fields s = u # line_fields cs"
      unfolding s Cons using u c by (intro fields_word) simp_all
    moreover have "line_fields cs = line_fields s'"
    proof -
      have "line_fields (takeWhile is_space cs @ s') = line_fields s'"
        by (rule fields_leading) (auto simp: list_all_iff dest: set_takeWhileD)
      then show ?thesis by (simp add: s'_def)
    qed
    ultimately show ?thesis using split by simp
  qed
qed

lemma table_line_shape_not_blank: "table_line_shape line \<Longrightarrow> \<not> list_all is_space line"
  unfolding table_line_shape_def
  by (auto simp: list_all_iff dest: digit_not_space)

lemma re_split_ws_strip:
  assumes "table_line_shape line"
  shows "re_split_ws (strip line) = line_fields line"
proof -
  have "\<not> list_all is_space line"
    using assms by (rule table_line_shape_not_blank)
  then have "re_split_ws (strip line) = line_fields (strip line)"
    using strip_ends [of line] by (intro re_split_ws_fields) simp_all
  then show ?thesis by (simp add: fields_strip)
qed

lemma parse_table_lines_samples:
  assumes "list_all table_line_shape ls"
  shows "parse_table_lines ls acc =
           (if list_all (\<lambda>l. length (line_fields l ! 0) \<le> int_max_str_digits)
                 (filter (\<lambda>l. 6 \<le> length (line_fields l)) ls)
            then Inr (acc @ map sample_of_line (filter (\<lambda>l. 6 \<le> length (line_fields l)) ls))
            else Inl ValueError)"
  using assms
proof (induction ls arbitrary: acc)
  case Nil
  show ?case by simp
next
  case (Cons l ls)
  have shape: "table_line_shape l" and rest: "list_all table_line_shape ls"
    using Cons.prems by simp_all
  have parts: "re_split_ws (strip l) = line_fields l"
    using shape by (rule re_split_ws_strip)
  have "digit_string (line_fields l ! 0)"
    using table_line_shape_first_field [OF shape] by simp
  then have n: "py_int (line_fields l ! 0) =
      (if int_max_str_digits < length (line_fields l ! 0) then Inl ValueError
       else Inr (int (nat_of_digits (line_fields l ! 0))))"
    by (rule py_int_digits)
  show ?case
    using Cons.IH [OF rest] by (simp add: parts n Let_def sample_of_line_def not_less)
qed

lemma parse_massif_rows_samples:
  "parse_massif_rows output =
     (if list_all (\<lambda>l. length (line_fields l ! 0) \<le> int_max_str_digits) (sample_lines output)
      then Inr (map sample_of_line (sample_lines output))
      else Inl ValueError)"
proof -
  let ?lines = "split_on CHR ''\<newline>'' output"
  have "list_all table_line_shape (filter re_match_table_line ?lines)"
    by (simp add: list_all_iff re_match_table_line_shape)
  then have "parse_table_lines (filter re_match_table_line ?lines) [] =
      (if list_all (\<lambda>l. length (line_fields l ! 0) \<le> int_max_str_digits)
            (filter (\<lambda>l. 6 \<le> length (line_fields l)) (filter re_match_table_line ?lines))
       then Inr ([] @ map sample_of_line
              (filter (\<lambda>l. 6 \<le> length (line_fields l)) (filter re_match_table_line ?lines)))
       else Inl ValueError)"
    by (rule parse_table_lines_samples)
  moreover have "sample_line = (\<lambda>l. table_line_shape l \<and> 6 \<le> length (line_fields l))"
    by (auto simp: fun_eq_iff sample_line_def)
  then have "filter (\<lambda>l. 6 \<le> length (line_fields l)) (filter re_match_table_line ?lines) = sample_lines output"
    by (simp add: sample_lines_def re_match_table_line_shape conj_commute)
  ultimately show ?thesis
    by (simp add: parse_massif_rows_def Let_def)
qed

subsection \<open>Columns and their sums\<close>

lemma remove_commas_digits:
  assumes "grouped_decimal s"
  shows "digit_string (remove_char CHR '','' s)"
proof -
  have "list_all is_digit (remove_char CHR '','' s)"
    using assms by (auto simp: grouped_decimal_def remove_char_def list_all_iff)
  moreover have "remove_char CHR '','' s \<noteq> []"
  proof -
    obtain c where "c \<in> set s" "is_digit c"
      using assms by (auto simp: grouped_decimal_def list_ex_iff)
    moreover from this have "c \<noteq> CHR '',''" by auto
    ultimately have "c \<in> set (remove_char CHR '','' s)"
      by (simp add: remove_char_def)
    then show ?thesis by auto
  qed
  ultimately show ?thesis by (simp add: digit_string_def)
qed

lemma to_int64_well_formed:
  assumes "well_formed_field s"
  shows "to_int64 (remove_char CHR '','' s) = Inr (word_of_int (grouped_value s))"
proof -
  have "digit_string (remove_char CHR '','' s)"
    using assms by (simp add: well_formed_field_def remove_commas_digits)
  moreover have "remove_char CHR '','' s = filter is_digit s"
    using assms unfolding well_formed_field_def grouped_decimal_def remove_char_def
    by (intro filter_cong) (auto simp: list_all_iff)
  then have "length (remove_char CHR '','' s) \<le> int_max_str_digits"
    using assms by (simp add: well_formed_field_def)
  ultimately have "py_int (remove_char CHR '','' s) = Inr (grouped_value s)"
    by (simp add: py_int_digits grouped_value_def)
  moreover have "- (2 ^ 63) \<le> grouped_value s" "grouped_value s < 2 ^ 63"
    using assms by (simp_all add: well_formed_field_def grouped_value_def)
  ultimately show ?thesis by (simp add: to_int64_def)
qed

lemma astype_int_map:
  assumes "list_all (\<lambda>x. to_int64 (f x) = Inr (g x)) xs"
  shows "astype_int (map f xs) = Inr (map g xs)"
  using assms by (induction xs) simp_all

lemma well_formed_line_field:
  assumes "well_formed_line l" and "1 \<le> k" and "k \<le> 5"
  shows "well_formed_field (line_fields l ! k)"
proof -
  have len: "6 \<le> length (line_fields l)"
    and all: "list_all well_formed_field (take 5 (drop 1 (line_fields l)))"
    using assms(1) by (simp_all add: well_formed_line_def sample_line_def)
  have "k - 1 < length (take 5 (drop 1 (line_fields l)))"
    using len assms(2,3) by simp
  then have "well_formed_field (take 5 (drop 1 (line_fields l)) ! (k - 1))"
    using all by (simp add: list_all_length)
  moreover have "take 5 (drop 1 (line_fields l)) ! (k - 1) = line_fields l ! k"
    using len assms(2,3) by simp
  ultimately show ?thesis by simp
qed

lemma column_to_int_samples:
  assumes "list_all well_formed_line ls" and "1 \<le> k" and "k \<le> 5"
    and "\<And>l. col (sample_of_line l) = line_fields l ! k"
  shows "column_to_int col (map sample_of_line ls)
           = Inr (map (\<lambda>l. word_of_int (grouped_value (line_fields l ! k))) ls)"
proof -
  have "list_all (\<lambda>l. to_int64 (remove_char CHR '','' (col (sample_of_line l)))
            = Inr (word_of_int (grouped_value (line_fields l ! k)))) ls"
    using assms by (simp add: list_all_iff to_int64_well_formed well_formed_line_field)
  then have "astype_int (map (\<lambda>l. remove_char CHR '','' (col (sample_of_line l))) ls)
           = Inr (map (\<lambda>l. word_of_int (grouped_value (line_fields l ! k))) ls)"
    by (rule astype_int_map)
  then show ?thesis by (simp add: column_to_int_def comp_def)
qed

lemma frame_rows_samples:
  "frame_rows (map sample_of_line ls)
     (map (\<lambda>l. word_of_int (grouped_value (line_fields l ! 1))) ls)
     (map (\<lambda>l. word_of_int (grouped_value (line_fields l ! 2))) ls)
     (map (\<lambda>l. word_of_int (grouped_value (line_fields l ! 3))) ls)
     (map (\<lambda>l. word_of_int (grouped_value (line_fields l ! 4))) ls)
     (map (\<lambda>l. word_of_int (grouped_value (line_fields l ! 5))) ls)
   = map row_of_line ls"
  by (rule nth_equalityI) (simp_all add: frame_rows_def row_of_line_def sample_of_line_def)

lemma sint_sum_list:
  "sint (sum_list ws :: 64 word) = wrap64 (sum_list (map sint ws))"
proof (induction ws)
  case Nil
  show ?case by (simp add: wrap64_def)
next
  case (Cons a ws)
  have "sint (a + sum_list ws) = signed_take_bit 63 (sint a + sint (sum_list ws))"
    by (simp add: sint_word_ariths)
  also have "\<dots> = signed_take_bit 63 (sint a + signed_take_bit 63 (sum_list (map sint ws)))"
    using Cons by (simp add: wrap64_def)
  also have "\<dots> = signed_take_bit 63 (sint a + sum_list (map sint ws))"
    by (simp add: signed_take_bit_eq_iff_take_bit_eq take_bit_add [symmetric, of _ "sint a"] take_bit_signed_take_bit)
  finally show ?case by (simp add: wrap64_def)
qed

lemma wrap64_in_range: "- (2 ^ 63) \<le> i \<Longrightarrow> i < 2 ^ 63 \<Longrightarrow> wrap64 i = i"
  by (simp add: wrap64_def signed_take_bit_int_eq_self)

lemma column_total_sum:
  assumes "last t = tr" and "col tr = sum_list (map col (butlast t))"
  shows "column_total col t"
proof -
  have "sint (col (last t)) = wrap64 (sum_list (map (\<lambda>r. sint (col r)) (butlast t)))"
    using assms sint_sum_list [of "map col (butlast t)"] by (simp add: comp_def)
  then show ?thesis
    by (simp add: column_total_def wrap64_in_range)
qed

subsection \<open>A token with whole seconds\<close>

lemma overlapping_segments:
  assumes eq: "xs @ u @ ys = zs @ v @ ts"
    and disj: "set u \<inter> set v = {}"
    and u: "u \<noteq> []" and v: "v \<noteq> []"
    and l1: "length zs < length xs + length u"
    and l2: "length xs < length zs + length v"
  shows False
proof -
  define j where "j = max (length xs) (length zs)"
  have ju: "length xs \<le> j" "j < length xs + length u"
    using u l1 by (simp_all add: j_def)
  have jv: "length zs \<le> j" "j < length zs + length v"
    using v l2 by (simp_all add: j_def)
  have iu: "j - length xs < length u" using ju by arith
  have iv: "j - length zs < length v" using jv by arith
  have "(xs @ u @ ys) ! j = u ! (j - length xs)"
    using ju iu by (simp add: nth_append)
  moreover have "(zs @ v @ ts) ! j = v ! (j - length zs)"
    using jv iv by (simp add: nth_append)
  moreover have "u ! (j - length xs) \<in> set u" using iu by simp
  moreover have "v ! (j - length zs) \<in> set v" using iv by simp
  ultimately show False using eq disj by auto
qed

lemma append_eq_longer:
  assumes "xs @ ys = zs @ ts" and "length zs \<le> length xs"
  shows "\<exists>us. xs = zs @ us \<and> ts = us @ ys"
proof -
  have "take (length zs) (xs @ ys) = zs" using assms(1) by simp
  then have z: "take (length zs) xs = zs" using assms(2) by simp
  have "drop (length zs) (xs @ ys) = ts" using assms(1) by simp
  then have t: "drop (length zs) xs @ ys = ts" using assms(2) by simp
  have "xs = zs @ drop (length zs) xs"
    using z append_take_drop_id [of "length zs" xs] by simp
  then show ?thesis using t by blast
qed

lemma last_non_digit:
  assumes "xs @ x # ds = ys @ y # es"
    and "list_all is_digit ds" and "list_all is_digit es"
    and "\<not> is_digit x" and "\<not> is_digit y"
  shows "x = y"
proof -
  have "rev ds @ x # rev xs = rev es @ y # rev ys"
    using arg_cong [OF assms(1), of rev] by simp
  then have "dropWhile is_digit (rev ds @ x # rev xs) = dropWhile is_digit (rev es @ y # rev ys)"
    by simp
  moreover have "dropWhile is_digit (rev ds @ x # rev xs) = x # rev xs"
    using assms(2,4) by (intro run_split(2)) (simp_all add: list_all_iff)
  moreover have "dropWhile is_digit (rev es @ y # rev ys) = y # rev ys"
    using assms(3,5) by (intro run_split(2)) (simp_all add: list_all_iff)
  ultimately show ?thesis by simp
qed

lemma whole_seconds_token_apart:
  assumes m: "digit_string m" and s: "digit_string s"
    and tok: "contains_elapsed_token (pre @ m @ '':'' @ s @ ''elapsed'' @ post)"
  shows "contains_elapsed_token pre \<or> contains_elapsed_token post"
proof -
  define ms where "ms = m @ '':'' @ s"
  define E where "E = ''elapsed''"
  obtain a m' w' d' b where eq0: "pre @ m @ '':'' @ s @ ''elapsed'' @ post = a @ elapsed_token m' w' d' @ b"
    and dg: "digit_string m'" "digit_string w'" "digit_string d'"
    using tok unfolding contains_elapsed_token_def by blast
  define N where "N = m' @ '':'' @ w' @ ''.'' @ d'"
  have eq: "pre @ ms @ E @ post = a @ N @ E @ b"
    using eq0 by (simp add: ms_def N_def E_def elapsed_token_def)
  have tokN: "elapsed_token m' w' d' = N @ E"
    by (simp add: elapsed_token_def N_def E_def)
  have lenE: "length E = 7" by (simp add: E_def)
  have ms_ne: "ms \<noteq> []" and N_ne: "N \<noteq> []"
    by (simp_all add: ms_def N_def)
  have ms_chars: "\<forall>c\<in>set ms. is_digit c \<or> c = CHR '':''"
    using m s by (auto simp: ms_def digit_string_def list_all_iff)
  have N_chars: "\<forall>c\<in>set N. is_digit c \<or> c = CHR '':'' \<or> c = CHR ''.''"
    using dg by (auto simp: N_def digit_string_def list_all_iff)
  have E_chars: "\<forall>c\<in>set E. \<not> is_digit c \<and> c \<noteq> CHR '':'' \<and> c \<noteq> CHR ''.''"
    by (simp add: E_def is_digit_def)
  have ms_E: "set ms \<inter> set E = {}" using ms_chars E_chars by blast
  have N_E: "set N \<inter> set E = {}" using N_chars E_chars by blast
  have E_ne: "E \<noteq> []" by (simp add: E_def)
  consider (before) "length a + length N < length pre + length ms"
    | (same) "length a + length N = length pre + length ms"
    | (after) "length pre + length ms < length a + length N"
    by linarith
  then show ?thesis
  proof cases
    case before
    show ?thesis
    proof (cases "length a + length N + 7 \<le> length pre")
      case True
      have "pre @ (ms @ E @ post) = (a @ N @ E) @ b" using eq by simp
      moreover have "length (a @ N @ E) \<le> length pre" using True lenE by simp
      ultimately obtain us where "pre = (a @ N @ E) @ us"
        using append_eq_longer by blast
      then have "pre = a @ elapsed_token m' w' d' @ us"
        by (simp add: tokN)
      then show ?thesis
        unfolding contains_elapsed_token_def using dg by blast
    next
      case False
      have "pre @ ms @ (E @ post) = (a @ N) @ E @ b" using eq by simp
      then have False
        using ms_E ms_ne E_ne
      proof (rule overlapping_segments)
        show "length (a @ N) < length pre + length ms" using before by simp
        show "length pre < length (a @ N) + length E" using False lenE by simp
      qed
      then show ?thesis ..
    qed
  next
    case same
    have len: "length (pre @ ms) = length (a @ N)" using same by simp
    have "(pre @ ms) @ (E @ post) = (a @ N) @ (E @ b)" using eq by simp
    then have "pre @ ms = a @ N"
      using append_eq_append_conv [OF disjI1 [OF len]] by blast
    then have "(pre @ m) @ CHR '':'' # s = (a @ m' @ '':'' @ w') @ CHR ''.'' # d'"
      by (simp add: ms_def N_def)
    then have "CHR '':'' = CHR ''.''"
      by (rule last_non_digit) (use s dg in \<open>simp_all add: digit_string_def\<close>)
    then show ?thesis by simp
  next
    case after
    show ?thesis
    proof (cases "length pre + length ms + 7 \<le> length a")
      case True
      have "a @ (N @ E @ b) = (pre @ ms @ E) @ post" using eq by simp
      moreover have "length (pre @ ms @ E) \<le> length a" using True lenE by simp
      ultimately obtain us where "post = us @ N @ E @ b"
        using append_eq_longer by blast
      then have "post = us @ elapsed_token m' w' d' @ b"
        by (simp add: tokN)
      then show ?thesis
        unfolding contains_elapsed_token_def using dg by blast
    next
      case False
      have "(pre @ ms) @ E @ post = a @ N @ (E @ b)" using eq by simp
      then have False
        using _ E_ne N_ne
      proof (rule overlapping_segments)
        show "set E \<inter> set N = {}" using N_E by blast
        show "length a < length (pre @ ms) + length E" using False lenE by simp
        show "length (pre @ ms) < length a + length N" using after by simp
      qed
      then show ?thesis ..
    qed
  qed
qed

lemma contains_elapsed_token_append:
  assumes "contains_elapsed_token x"
  shows "contains_elapsed_token (l @ x @ r)"
proof -
  obtain a m w d b where "x = a @ elapsed_token m w d @ b"
    and dg: "digit_string m" "digit_string w" "digit_string d"
    using assms unfolding contains_elapsed_token_def by blast
  then have "l @ x @ r = (l @ a) @ elapsed_token m w d @ (b @ r)"
    by simp
  then show ?thesis
    unfolding contains_elapsed_token_def using dg by blast
qed

section \<open>The elapsed-time extractor\<close>

lemma first_elapsed_tokenI:
  assumes "s = pre @ elapsed_token m w d @ post"
    and "digit_string m" and "digit_string w" and "digit_string d"
    and "list_all (\<lambda>i. elapsed_match_here (drop i s) = None) [0..<length pre]"
  shows "first_elapsed_token s pre m w d post"
  unfolding first_elapsed_token_def
proof (intro conjI allI impI)
  fix pre' m' w' d' post'
  assume h: "s = pre' @ elapsed_token m' w' d' @ post' \<and> digit_string m' \<and> digit_string w' \<and>
    digit_string d'"
  show "length pre \<le> length pre'"
  proof (rule ccontr)
    assume "\<not> length pre \<le> length pre'"
    then have "elapsed_match_here (drop (length pre') s) = None"
      using assms(5) by (simp add: list_all_iff)
    moreover have "drop (length pre') s = elapsed_token m' w' d' @ post'"
      using h by simp
    ultimately show False
      using h elapsed_match_here_token [of m' w' d' post'] by simp
  qed
qed (use assms in simp_all)

lemmas eval_time = elapsed_match_here_def many1_def lit_def is_digit_def is_space_def
  digit_val_def strip_def py_int_def int_unsigned_def py_float_def float_of_int_def
  nat_of_digits_def extract_and_convert_time_def

text \<open>
  C2, as the script has it. A text without a token
  \<^verbatim>\<open><minutes>:<seconds-with-fraction>elapsed\<close> gives \<^verbatim>\<open>None\<close>. A text with such
  a token has a first one, and the result is read from the first one alone. A
  minutes field of more than 4300 digits raises \<^verbatim>\<open>ValueError\<close>; a shorter one with
  \<open>minutes * 60\<close> too large for a float (\<open>2 ^ 1024 - 2 ^ 970\<close> or more) raises
  \<^verbatim>\<open>OverflowError\<close>. In every other case the result is the float sum of
  \<open>minutes * 60\<close>, rounded to a double, and of the seconds, the double nearest to
  the decimal number written or the infinity. No other error is raised.
\<close>

theorem extract_and_convert_time_first_token:
  "(\<not> contains_elapsed_token output \<longrightarrow> extract_and_convert_time output = Inr None) \<and>
   (contains_elapsed_token output \<longrightarrow>
      (\<exists>pre m w d post. first_elapsed_token output pre m w d post)) \<and>
   (\<forall>pre m w d post. first_elapsed_token output pre m w d post \<longrightarrow>
      extract_and_convert_time output =
        (if int_max_str_digits < length m then Inl ValueError
         else if 2 ^ 1024 - 2 ^ 970 \<le> int (nat_of_digits m) * 60 then Inl OverflowError
         else Inr (Some (float_add
                (Finite_float (nearest_double (of_int (int (nat_of_digits m) * 60))))
                (round_double (decimal_value w d))))))"
proof (intro conjI allI impI)
  assume "\<not> contains_elapsed_token output"
  then have "re_search_elapsed output = None"
    by (simp add: re_search_elapsed_None_iff)
  then show "extract_and_convert_time output = Inr None"
    by (simp add: extract_and_convert_time_def)
next
  assume "contains_elapsed_token output"
  then show "\<exists>pre m w d post. first_elapsed_token output pre m w d post"
    by (rule first_elapsed_token_exists)
next
  fix pre m w d post
  assume "first_elapsed_token output pre m w d post"
  then show "extract_and_convert_time output =
        (if int_max_str_digits < length m then Inl ValueError
         else if 2 ^ 1024 - 2 ^ 970 \<le> int (nat_of_digits m) * 60 then Inl OverflowError
         else Inr (Some (float_add
                (Finite_float (nearest_double (of_int (int (nat_of_digits m) * 60))))
                (round_double (decimal_value w d)))))"
    by (rule extract_and_convert_time_first)
qed

theorem extract_and_convert_time_first_token_witness:
  "first_elapsed_token ''real 2:12.50elapsed 0:01.25elapsed'' ''real '' ''2'' ''12'' ''50''
     '' 0:01.25elapsed'' \<and>
   extract_and_convert_time ''real 2:12.50elapsed 0:01.25elapsed''
     = Inr (Some (Finite_float (265 / 2)))"
proof (rule conjI)
  let ?out = "''real 2:12.50elapsed 0:01.25elapsed''"
  show first: "first_elapsed_token ?out ''real '' ''2'' ''12'' ''50'' '' 0:01.25elapsed''"
    by (rule first_elapsed_tokenI)
      (simp_all add: elapsed_token_def digit_string_def eval_time upt_rec)
  have "extract_and_convert_time ?out =
        (if int_max_str_digits < length ''2'' then Inl ValueError
         else if 2 ^ 1024 - 2 ^ 970 \<le> int (nat_of_digits ''2'') * 60 then Inl OverflowError
         else Inr (Some (float_add
                (Finite_float (nearest_double (of_int (int (nat_of_digits ''2'') * 60))))
                (round_double (decimal_value ''12'' ''50'')))))"
    using first extract_and_convert_time_first_token [of ?out] by blast
  moreover have "int (nat_of_digits ''2'') * 60 = 120"
    and "decimal_value ''12'' ''50'' = 25 / 2"
    by (simp_all add: nat_of_digits_def decimal_value_def digit_val_def)
  moreover have "nearest_double (of_int 120) = 120"
    using nearest_double_dyadic [of 120 0] by simp
  moreover have "round_double (25 / 2) = Finite_float (25 / 2)"
    using round_double_dyadic [of 25 1] by simp
  moreover have "round_double (265 / 2) = Finite_float (265 / 2)"
    using round_double_dyadic [of 265 1] by simp
  ultimately show "extract_and_convert_time ?out = Inr (Some (Finite_float (265 / 2)))"
    by (simp add: int_max_str_digits_def)
qed

text \<open>
  C2 as stated fails on a minutes field of 310 digits, and on one of 4301 digits:
  the token is there, and the script raises instead of returning a float.
\<close>

theorem extract_and_convert_time_counterexample:
  "extract_and_convert_time (replicate 310 CHR ''9'' @ '':1.0elapsed'') = Inl OverflowError \<and>
   extract_and_convert_time (replicate 4301 CHR ''0'' @ '':1.5elapsed'') = Inl ValueError"
proof (rule conjI)
  have t: "replicate 310 CHR ''9'' @ '':1.0elapsed''
      = elapsed_token (replicate 310 CHR ''9'') ''1'' ''0'' @ []"
    by (simp add: elapsed_token_def)
  have f: "first_elapsed_token (elapsed_token (replicate 310 CHR ''9'') ''1'' ''0'' @ []) []
      (replicate 310 CHR ''9'') ''1'' ''0'' []"
    by (rule first_elapsed_token_Nil)
      (rule digit_string_replicate, simp_all add: digit_string_def is_digit_def)
  have big: "2 ^ 1024 - 2 ^ 970 \<le> int (10 ^ 310 - 1) * 60"
    by simp
  show "extract_and_convert_time (replicate 310 CHR ''9'' @ '':1.0elapsed'') = Inl OverflowError"
    unfolding t extract_and_convert_time_first [OF f] nat_of_digits_nines
    using big by (simp add: int_max_str_digits_def)
next
  have t: "replicate 4301 CHR ''0'' @ '':1.5elapsed''
      = elapsed_token (replicate 4301 CHR ''0'') ''1'' ''5'' @ []"
    by (simp add: elapsed_token_def)
  have f: "first_elapsed_token (elapsed_token (replicate 4301 CHR ''0'') ''1'' ''5'' @ []) []
      (replicate 4301 CHR ''0'') ''1'' ''5'' []"
    by (rule first_elapsed_token_Nil)
      (rule digit_string_replicate, simp_all add: digit_string_def is_digit_def)
  show "extract_and_convert_time (replicate 4301 CHR ''0'' @ '':1.5elapsed'') = Inl ValueError"
    unfolding t extract_and_convert_time_first [OF f]
    by (simp add: int_max_str_digits_def)
qed

text \<open>
  C10. A token with whole seconds, \<^verbatim>\<open><minutes>:<seconds>elapsed\<close>, is no match and
  is part of none: a text that holds it has a token with a fraction only if the text
  before it or the text after it has one. So with no other token, one with a fraction,
  in the text, the result is \<^verbatim>\<open>None\<close>.
\<close>

theorem whole_seconds_give_none:
  assumes "digit_string m" and "digit_string s"
  shows "(contains_elapsed_token (pre @ m @ '':'' @ s @ ''elapsed'' @ post) \<longleftrightarrow>
            contains_elapsed_token pre \<or> contains_elapsed_token post) \<and>
         (\<not> contains_elapsed_token pre \<and> \<not> contains_elapsed_token post \<longrightarrow>
            extract_and_convert_time (pre @ m @ '':'' @ s @ ''elapsed'' @ post) = Inr None)"
proof -
  let ?text = "pre @ m @ '':'' @ s @ ''elapsed'' @ post"
  have iff: "contains_elapsed_token ?text \<longleftrightarrow>
      contains_elapsed_token pre \<or> contains_elapsed_token post"
  proof
    assume "contains_elapsed_token ?text"
    with assms show "contains_elapsed_token pre \<or> contains_elapsed_token post"
      by (rule whole_seconds_token_apart)
  next
    assume "contains_elapsed_token pre \<or> contains_elapsed_token post"
    then show "contains_elapsed_token ?text"
    proof
      assume "contains_elapsed_token pre"
      then have "contains_elapsed_token ([] @ pre @ (m @ '':'' @ s @ ''elapsed'' @ post))"
        by (rule contains_elapsed_token_append)
      then show ?thesis by simp
    next
      assume "contains_elapsed_token post"
      then have "contains_elapsed_token ((pre @ m @ '':'' @ s @ ''elapsed'') @ post @ [])"
        by (rule contains_elapsed_token_append)
      then show ?thesis by simp
    qed
  qed
  have "extract_and_convert_time ?text = Inr None"
    if "\<not> contains_elapsed_token pre \<and> \<not> contains_elapsed_token post"
  proof -
    have "\<not> contains_elapsed_token ?text" using that iff by blast
    then have "re_search_elapsed ?text = None"
      by (rule iffD2 [OF re_search_elapsed_None_iff])
    then show ?thesis by (simp add: extract_and_convert_time_def)
  qed
  then show ?thesis using iff by blast
qed

theorem whole_seconds_give_none_witness:
  "digit_string ''1'' \<and> digit_string ''05'' \<and>
   \<not> contains_elapsed_token ''real '' \<and> \<not> contains_elapsed_token '' 3 total'' \<and>
   extract_and_convert_time (''real '' @ ''1'' @ '':'' @ ''05'' @ ''elapsed'' @ '' 3 total'') = Inr None"
proof -
  have m: "digit_string ''1''" and s: "digit_string ''05''"
    by (simp_all add: digit_string_def is_digit_def)
  have no: "\<not> contains_elapsed_token ''real '' \<and> \<not> contains_elapsed_token '' 3 total''"
    unfolding re_search_elapsed_None_iff [symmetric]
    by (simp add: eval_time)
  have "extract_and_convert_time (''real '' @ ''1'' @ '':'' @ ''05'' @ ''elapsed'' @ '' 3 total'') = Inr None"
    using conjunct2 [OF whole_seconds_give_none [OF m s, of "''real ''" "'' 3 total''"]] no
    by (rule mp)
  then show ?thesis using m s no by blast
qed

section \<open>The memory-report parser\<close>

lemma process_massif_output_Inr:
  assumes "process_massif_output output = Inr t"
  shows "\<exists>ts bs us es ss. t = frame_rows (map sample_of_line (sample_lines output)) ts bs us es ss
           @ [\<lparr>col_n = Total_label, col_time_i = sum_list ts, col_total_B = sum_list bs,
                col_useful_heap_B = sum_list us, col_extra_heap_B = sum_list es,
                col_stacks_B = sum_list ss\<rparr>]"
  using assms unfolding process_massif_output_def parse_massif_rows_samples
  by (fastforce simp: Let_def split: if_splits sum.splits)

lemma frame_rows_col_n:
  "map col_n (frame_rows p ts bs us es ss) = map (\<lambda>r. Sample (pt_n r)) p"
  by (rule nth_equalityI) (simp_all add: frame_rows_def)

lemma length_frame_rows: "length (frame_rows p ts bs us es ss) = length p"
  by (simp add: frame_rows_def)

lemmas eval_text = is_space_def is_digit_def digit_val_def Let_def strip_def
  re_match_table_line_def many1_def one_def lit_def re_split_ws.simps

lemmas eval_int = py_int_def int_max_str_digits_def int_unsigned_def to_int64_def remove_char_def
  nat_of_digits_def

lemmas eval_massif = process_massif_output_def parse_massif_rows_def column_to_int_def
  frame_rows_def

lemmas eval_lines = sample_lines_def sample_line_def table_line_shape_scan table_line_scan_def
  line_fields.simps well_formed_line_def well_formed_field_def grouped_decimal_def
  grouped_value_def sample_of_line_def row_of_line_def

text \<open>
  C8. The sample rows are exactly the lines that have the shape and at least six
  fields, one row per such line and in the order of the text: a line of the shape with
  fewer fields and a line without the shape give no row. This holds of the rows the
  parsing loop collects, for every text that the loop reads to its end: it stops with
  \<^verbatim>\<open>ValueError\<close> where the sample number of such a line has more than 4300
  digits, and nowhere else. And it holds of the rows before the total row in every
  frame that \<^verbatim>\<open>process_massif_output\<close> returns.
\<close>

theorem sample_rows_are_sample_lines:
  "parse_massif_rows output
     = (if list_all (\<lambda>l. length (line_fields l ! 0) \<le> int_max_str_digits)
             (filter sample_line (split_on CHR ''\<newline>'' output))
        then Inr (map sample_of_line (filter sample_line (split_on CHR ''\<newline>'' output)))
        else Inl ValueError) \<and>
   (\<forall>t. process_massif_output output = Inr t \<longrightarrow>
      length t = Suc (length (filter sample_line (split_on CHR ''\<newline>'' output))) \<and>
      map col_n (butlast t)
        = map (\<lambda>l. Sample (pt_n (sample_of_line l)))
            (filter sample_line (split_on CHR ''\<newline>'' output)))"
proof (intro conjI allI impI)
  show "parse_massif_rows output
     = (if list_all (\<lambda>l. length (line_fields l ! 0) \<le> int_max_str_digits)
             (filter sample_line (split_on CHR ''\<newline>'' output))
        then Inr (map sample_of_line (filter sample_line (split_on CHR ''\<newline>'' output)))
        else Inl ValueError)"
    using parse_massif_rows_samples by (simp only: sample_lines_def)
next
  fix t assume "process_massif_output output = Inr t"
  then obtain ts bs us es ss tr
    where t: "t = frame_rows (map sample_of_line (sample_lines output)) ts bs us es ss @ [tr]"
    using process_massif_output_Inr by blast
  show "length t = Suc (length (filter sample_line (split_on CHR ''\<newline>'' output)))"
    unfolding t by (simp add: length_frame_rows sample_lines_def)
  show "map col_n (butlast t)
        = map (\<lambda>l. Sample (pt_n (sample_of_line l)))
            (filter sample_line (split_on CHR ''\<newline>'' output))"
    unfolding t by (simp add: frame_rows_col_n sample_lines_def comp_def)
qed

theorem sample_rows_are_sample_lines_witness:
  "process_massif_output
     ''    n   time(i)   total(B)\<newline> 0 1 1,000 800 150 50\<newline> 7 8 9\<newline>1 2 2,000 1,600 300 100 x''
     = Inr [\<lparr>col_n = Sample 0, col_time_i = 1, col_total_B = 1000, col_useful_heap_B = 800,
              col_extra_heap_B = 150, col_stacks_B = 50\<rparr>,
            \<lparr>col_n = Sample 1, col_time_i = 2, col_total_B = 2000, col_useful_heap_B = 1600,
              col_extra_heap_B = 300, col_stacks_B = 100\<rparr>,
            \<lparr>col_n = Total_label, col_time_i = 3, col_total_B = 3000, col_useful_heap_B = 2400,
              col_extra_heap_B = 450, col_stacks_B = 150\<rparr>] \<and>
   map col_n (butlast
       [\<lparr>col_n = Sample 0, col_time_i = 1, col_total_B = 1000, col_useful_heap_B = 800,
          col_extra_heap_B = 150, col_stacks_B = 50\<rparr>,
        \<lparr>col_n = Sample 1, col_time_i = 2, col_total_B = 2000, col_useful_heap_B = 1600,
          col_extra_heap_B = 300, col_stacks_B = 100\<rparr>,
        \<lparr>col_n = Total_label, col_time_i = 3, col_total_B = 3000, col_useful_heap_B = 2400,
          col_extra_heap_B = 450, col_stacks_B = 150\<rparr>])
     = map (\<lambda>l. Sample (pt_n (sample_of_line l)))
         (filter sample_line (split_on CHR ''\<newline>''
            ''    n   time(i)   total(B)\<newline> 0 1 1,000 800 150 50\<newline> 7 8 9\<newline>1 2 2,000 1,600 300 100 x''))"
proof (rule conjI)
  let ?out = "''    n   time(i)   total(B)\<newline> 0 1 1,000 800 150 50\<newline> 7 8 9\<newline>1 2 2,000 1,600 300 100 x''"
  let ?t = "[\<lparr>col_n = Sample 0, col_time_i = 1, col_total_B = 1000, col_useful_heap_B = 800,
              col_extra_heap_B = 150, col_stacks_B = 50\<rparr>,
            \<lparr>col_n = Sample 1, col_time_i = 2, col_total_B = 2000, col_useful_heap_B = 1600,
              col_extra_heap_B = 300, col_stacks_B = 100\<rparr>,
            \<lparr>col_n = Total_label, col_time_i = 3, col_total_B = 3000, col_useful_heap_B = 2400,
              col_extra_heap_B = 450, col_stacks_B = 150\<rparr>]"
  show run: "process_massif_output ?out = Inr ?t"
    by (simp add: eval_text eval_int eval_massif upt_rec)
  have "\<forall>t. process_massif_output ?out = Inr t \<longrightarrow>
      length t = Suc (length (filter sample_line (split_on CHR ''\<newline>'' ?out))) \<and>
      map col_n (butlast t)
        = map (\<lambda>l. Sample (pt_n (sample_of_line l))) (filter sample_line (split_on CHR ''\<newline>'' ?out))"
    by (rule conjunct2 [OF sample_rows_are_sample_lines])
  then show "map col_n (butlast ?t)
        = map (\<lambda>l. Sample (pt_n (sample_of_line l))) (filter sample_line (split_on CHR ''\<newline>'' ?out))"
    using run by blast
qed

text \<open>
  C7, as the script has it. A text with no sample line (no line of the shape with at
  least six fields; the empty text is one) gives an empty frame without columns, and
  the first column access raises \<^verbatim>\<open>KeyError\<close>: no report is returned.
\<close>

theorem no_sample_line_raises:
  "sample_lines output = [] \<Longrightarrow> process_massif_output output = Inl KeyError"
  by (simp add: process_massif_output_def parse_massif_rows_samples)

theorem no_sample_line_raises_witness:
  "sample_lines ''   n  time(i)\<newline>0 1 2\<newline>'' = [] \<and>
   process_massif_output ''   n  time(i)\<newline>0 1 2\<newline>'' = Inl KeyError"
proof (rule conjI)
  show empty: "sample_lines ''   n  time(i)\<newline>0 1 2\<newline>'' = []"
    by (simp add: eval_lines is_space_def is_digit_def Let_def)
  show "process_massif_output ''   n  time(i)\<newline>0 1 2\<newline>'' = Inl KeyError"
    using empty by (rule no_sample_line_raises)
qed

text \<open>C7 as stated fails on the empty text: the script raises, it returns no total row.\<close>

theorem empty_report_counterexample:
  "process_massif_output [] = Inl KeyError"
  by (simp add: eval_text eval_int eval_massif)

text \<open>
  C1, as the script has it. When the text has at least one sample line and every
  sample line is well formed (its five numeric fields are comma-grouped decimals below
  \<open>2 ^ 63\<close>, and neither they nor the sample number have more than 4300 digits),
  \<^verbatim>\<open>process_massif_output\<close> returns one row per sample line and a last
  row labelled \<^verbatim>\<open>Total\<close>; each of the five numeric columns of the last row is the
  sum of the column over the rows before it, added in 64 bits: the sum itself whenever
  that fits into 64 bits.
\<close>

theorem total_row_sums_columns:
  assumes "sample_lines output \<noteq> []"
    and "list_all well_formed_line (sample_lines output)"
  shows "\<exists>t. process_massif_output output = Inr t \<and>
            length t = length (sample_lines output) + 1 \<and>
            butlast t = map row_of_line (sample_lines output) \<and>
            col_n (last t) = Total_label \<and>
            column_total col_time_i t \<and> column_total col_total_B t \<and>
            column_total col_useful_heap_B t \<and> column_total col_extra_heap_B t \<and>
            column_total col_stacks_B t"
proof -
  let ?ls = "sample_lines output"
  let ?c = "\<lambda>k. map (\<lambda>l. word_of_int (grouped_value (line_fields l ! k)) :: 64 word) ?ls"
  define tr where "tr = \<lparr>col_n = Total_label, col_time_i = sum_list (?c 1), col_total_B = sum_list (?c 2),
      col_useful_heap_B = sum_list (?c 3), col_extra_heap_B = sum_list (?c 4),
      col_stacks_B = sum_list (?c 5)\<rparr>"
  define t where "t = map row_of_line ?ls @ [tr]"
  have c1: "column_to_int pt_time_i (map sample_of_line ?ls) = Inr (?c 1)"
    using assms(2) by (rule column_to_int_samples) (simp_all add: sample_of_line_def)
  have c2: "column_to_int pt_total_B (map sample_of_line ?ls) = Inr (?c 2)"
    using assms(2) by (rule column_to_int_samples) (simp_all add: sample_of_line_def)
  have c3: "column_to_int pt_useful_heap_B (map sample_of_line ?ls) = Inr (?c 3)"
    using assms(2) by (rule column_to_int_samples) (simp_all add: sample_of_line_def)
  have c4: "column_to_int pt_extra_heap_B (map sample_of_line ?ls) = Inr (?c 4)"
    using assms(2) by (rule column_to_int_samples) (simp_all add: sample_of_line_def)
  have c5: "column_to_int pt_stacks_B (map sample_of_line ?ls) = Inr (?c 5)"
    using assms(2) by (rule column_to_int_samples) (simp_all add: sample_of_line_def)
  have fr: "frame_rows (map sample_of_line ?ls) (?c 1) (?c 2) (?c 3) (?c 4) (?c 5) = map row_of_line ?ls"
    by (rule frame_rows_samples)
  have "list_all (\<lambda>l. length (line_fields l ! 0) \<le> int_max_str_digits) ?ls"
    using assms(2) by (simp add: list_all_iff well_formed_line_def)
  then have rows: "parse_massif_rows output = Inr (map sample_of_line ?ls)"
    by (simp add: parse_massif_rows_samples)
  have run: "process_massif_output output = Inr t"
    unfolding process_massif_output_def rows
    using assms(1) fr by (simp add: c1 c2 c3 c4 c5 Let_def t_def tr_def)
  have last: "last t = tr" and butlast: "butlast t = map row_of_line ?ls"
    by (simp_all add: t_def)
  have "column_total col_time_i t"
    using last by (rule column_total_sum) (simp add: butlast tr_def comp_def row_of_line_def)
  moreover have "column_total col_total_B t"
    using last by (rule column_total_sum) (simp add: butlast tr_def comp_def row_of_line_def)
  moreover have "column_total col_useful_heap_B t"
    using last by (rule column_total_sum) (simp add: butlast tr_def comp_def row_of_line_def)
  moreover have "column_total col_extra_heap_B t"
    using last by (rule column_total_sum) (simp add: butlast tr_def comp_def row_of_line_def)
  moreover have "column_total col_stacks_B t"
    using last by (rule column_total_sum) (simp add: butlast tr_def comp_def row_of_line_def)
  moreover have "length t = length ?ls + 1" by (simp add: t_def)
  moreover have "col_n (last t) = Total_label" by (simp add: last tr_def)
  ultimately show ?thesis using run butlast by blast
qed

theorem total_row_sums_columns_witness:
  "sample_lines ''0 1 1,000 800 150 50\<newline>1 2 2,000 1,600 300 100'' \<noteq> [] \<and>
   list_all well_formed_line (sample_lines ''0 1 1,000 800 150 50\<newline>1 2 2,000 1,600 300 100'') \<and>
   (\<exists>t. process_massif_output ''0 1 1,000 800 150 50\<newline>1 2 2,000 1,600 300 100'' = Inr t \<and>
        length t = length (sample_lines ''0 1 1,000 800 150 50\<newline>1 2 2,000 1,600 300 100'') + 1 \<and>
        butlast t = map row_of_line (sample_lines ''0 1 1,000 800 150 50\<newline>1 2 2,000 1,600 300 100'') \<and>
        col_n (last t) = Total_label \<and>
        column_total col_time_i t \<and> column_total col_total_B t \<and>
        column_total col_useful_heap_B t \<and> column_total col_extra_heap_B t \<and>
        column_total col_stacks_B t)"
proof (intro conjI)
  have lines: "sample_lines ''0 1 1,000 800 150 50\<newline>1 2 2,000 1,600 300 100''
      = [''0 1 1,000 800 150 50'', ''1 2 2,000 1,600 300 100'']"
    by (simp add: eval_lines is_space_def is_digit_def Let_def)
  show a: "sample_lines ''0 1 1,000 800 150 50\<newline>1 2 2,000 1,600 300 100'' \<noteq> []"
    by (simp add: lines)
  show b: "list_all well_formed_line (sample_lines ''0 1 1,000 800 150 50\<newline>1 2 2,000 1,600 300 100'')"
    unfolding lines
    by (simp add: eval_lines nat_of_digits_def remove_char_def digit_val_def is_space_def
        is_digit_def int_max_str_digits_def Let_def)
  show "\<exists>t. process_massif_output ''0 1 1,000 800 150 50\<newline>1 2 2,000 1,600 300 100'' = Inr t \<and>
        length t = length (sample_lines ''0 1 1,000 800 150 50\<newline>1 2 2,000 1,600 300 100'') + 1 \<and>
        butlast t = map row_of_line (sample_lines ''0 1 1,000 800 150 50\<newline>1 2 2,000 1,600 300 100'') \<and>
        col_n (last t) = Total_label \<and>
        column_total col_time_i t \<and> column_total col_total_B t \<and>
        column_total col_useful_heap_B t \<and> column_total col_extra_heap_B t \<and>
        column_total col_stacks_B t"
    using a b by (rule total_row_sums_columns)
qed

text \<open>
  C1 as stated fails in two ways. A text without a sample line has \<open>N = 0\<close>, and the
  script returns no row at all. Two sample lines with \<open>2 ^ 62\<close> bytes each are well
  formed, and the last row holds \<open>- (2 ^ 63)\<close>, not their sum.
\<close>

theorem total_row_counterexample:
  "process_massif_output ''no samples'' = Inl KeyError \<and>
   process_massif_output ''0 1 4611686018427387904 0 0 0\<newline>1 2 4611686018427387904 0 0 0''
     = Inr [\<lparr>col_n = Sample 0, col_time_i = 1, col_total_B = 4611686018427387904,
              col_useful_heap_B = 0, col_extra_heap_B = 0, col_stacks_B = 0\<rparr>,
            \<lparr>col_n = Sample 1, col_time_i = 2, col_total_B = 4611686018427387904,
              col_useful_heap_B = 0, col_extra_heap_B = 0, col_stacks_B = 0\<rparr>,
            \<lparr>col_n = Total_label, col_time_i = 3, col_total_B = 9223372036854775808,
              col_useful_heap_B = 0, col_extra_heap_B = 0, col_stacks_B = 0\<rparr>] \<and>
   sint (4611686018427387904 :: 64 word) = 4611686018427387904 \<and>
   sint (9223372036854775808 :: 64 word) = - 9223372036854775808"
  by (simp add: eval_text eval_int eval_massif upt_rec)

section \<open>The session\<close>


lemma is_digit_digit_char:
  assumes "d < 10"
  shows "is_digit (digit_char d)"
proof -
  have "d \<in> set [0..<10]" using assms by simp
  then have "d \<in> {0, 1, 2, 3, 4, 5, 6, 7, 8, 9}" by (auto simp: upt_rec)
  then show ?thesis by (auto simp: is_digit_def digit_char_def)
qed

lemma digits_of_nat_small: "n < 10 \<Longrightarrow> digits_of_nat n = [digit_char n]"
  by (subst digits_of_nat.simps) simp

lemma digits_of_nat_large:
  "10 \<le> n \<Longrightarrow> digits_of_nat n = digits_of_nat (n div 10) @ [digit_char (n mod 10)]"
  by (subst digits_of_nat.simps) simp

lemma digits_of_nat_digits: "list_all is_digit (digits_of_nat n)"
proof (induction n rule: digits_of_nat.induct)
  case (1 n)
  show ?case
  proof (cases "n < 10")
    case True
    then show ?thesis
      by (subst digits_of_nat.simps) (simp add: is_digit_digit_char)
  next
    case False
    then show ?thesis
      using "1.IH" by (subst digits_of_nat.simps) (simp add: is_digit_digit_char)
  qed
qed

lemma two_decimals_fmt_2f: "two_decimals (fmt_2f x)"
proof -
  define h where "h = nat (round_half_even (\<bar>x\<bar> * 100))"
  define a where "a = (if x < 0 then ''-'' else []) @ digits_of_nat (h div 100)"
  have "fmt_2f x = a @ [CHR ''.'', digit_char (h div 10 mod 10), digit_char (h mod 10)]"
    by (simp add: fmt_2f_def a_def h_def Let_def)
  moreover have "CHR ''.'' \<notin> set (digits_of_nat (h div 100))"
    using digits_of_nat_digits [of "h div 100"] by (auto simp: list_all_iff)
  then have "CHR ''.'' \<notin> set a"
    by (simp add: a_def)
  moreover have "is_digit (digit_char (h div 10 mod 10))" "is_digit (digit_char (h mod 10))"
    by (simp_all add: is_digit_digit_char)
  ultimately show ?thesis
    unfolding two_decimals_def by blast
qed




text \<open>
  C9. \<^verbatim>\<open>verify_build\<close> leaves the session as it is: the four result fields and the
  paths are those of before, however often it runs and whether or not files are
  missing. Of the world it changes the log alone, which it only extends.
\<close>

theorem verify_build_keeps_session:
  "fst (snd (verify_build self w)) = self \<and>
   fst (((\<lambda>(s, v). snd (verify_build s v)) ^^ k) (self, w)) = self \<and>
   file_exists (snd (snd (verify_build self w))) = file_exists w \<and>
   commands (snd (snd (verify_build self w))) = commands w \<and>
   printed (snd (snd (verify_build self w))) = printed w \<and>
   prefix (log w) (log (snd (snd (verify_build self w))))"
proof (intro conjI)
  show one: "fst (snd (verify_build s v)) = s" for s v
    by (simp add: verify_build_def Let_def)
  show "fst (((\<lambda>(s, v). snd (verify_build s v)) ^^ k) (self, w)) = self"
  proof (induction k)
    case 0
    show ?case by simp
  next
    case (Suc k)
    obtain s v where sv: "((\<lambda>(s, v). snd (verify_build s v)) ^^ k) (self, w) = (s, v)"
      by (cases "((\<lambda>(s, v). snd (verify_build s v)) ^^ k) (self, w)")
    then have "s = self" using Suc by simp
    then show ?case using sv one [of self v] by simp
  qed
  show "file_exists (snd (snd (verify_build self w))) = file_exists w"
    by (simp add: verify_build_def Let_def logging_def)
  show "commands (snd (snd (verify_build self w))) = commands w"
    by (simp add: verify_build_def Let_def logging_def)
  show "printed (snd (snd (verify_build self w))) = printed w"
    by (simp add: verify_build_def Let_def logging_def)
  show "prefix (log w) (log (snd (snd (verify_build self w))))"
    by (simp add: verify_build_def Let_def logging_def)
qed

theorem verify_build_keeps_session_witness:
  "fst (snd (verify_build sample_tool sample_world)) = sample_tool \<and>
   fst (((\<lambda>(s, v). snd (verify_build s v)) ^^ 3) (sample_tool, sample_world)) = sample_tool \<and>
   assigner_total_gb (fst (snd (verify_build sample_tool sample_world))) = None"
proof -
  have "fst (snd (verify_build sample_tool sample_world)) = sample_tool"
    "fst (((\<lambda>(s, v). snd (verify_build s v)) ^^ 3) (sample_tool, sample_world)) = sample_tool"
    using verify_build_keeps_session [of sample_tool sample_world 3] by blast+
  moreover have "assigner_total_gb sample_tool = None"
    by (simp add: sample_tool_def init_def)
  ultimately show ?thesis by simp
qed



text \<open>
  C4. With one of the four result fields unset, \<^verbatim>\<open>display_results\<close> prints nothing
  and logs one error. With all four set it logs nothing and prints two lines, the
  assigner's and the proof's, each with the memory in the format \<^verbatim>\<open>.2f\<close>, which has
  exactly two decimal places.
\<close>

theorem display_results_all_or_nothing:
  "(assigner_total_gb self = None \<or> assigner_formatted_time self = None \<or>
    proof_total_gb self = None \<or> proof_formatted_time self = None \<longrightarrow>
      printed (snd (snd (display_results self w))) = printed w \<and>
      log (snd (snd (display_results self w)))
        = log w @ [(ERROR, ''Benchmark results are incomplete. Please run the benchmark first.'')]) \<and>
   (\<forall>am atime pm ptime.
      assigner_total_gb self = Some am \<and> assigner_formatted_time self = Some atime \<and>
      proof_total_gb self = Some pm \<and> proof_formatted_time self = Some ptime \<longrightarrow>
        log (snd (snd (display_results self w))) = log w \<and>
        printed (snd (snd (display_results self w)))
          = printed w @
            [[Text ''1. Assigner:\<newline>   Memory: '', Text (fmt_2f am), Text ''GB,\<newline>   Time: '',
              Float_str atime, Text ''s''],
             [Text ''2. Proof:\<newline>   Memory: '', Text (fmt_2f pm), Text ''GB,\<newline>   Time: '',
              Float_str ptime, Text ''s'']] \<and>
        two_decimals (fmt_2f am) \<and> two_decimals (fmt_2f pm))"
proof (intro conjI allI impI)
  assume "assigner_total_gb self = None \<or> assigner_formatted_time self = None \<or>
    proof_total_gb self = None \<or> proof_formatted_time self = None"
  then have unset: "list_ex (\<lambda>is_none. is_none)
      [assigner_total_gb self = None, assigner_formatted_time self = None,
       proof_total_gb self = None, proof_formatted_time self = None]"
    by auto
  show "printed (snd (snd (display_results self w))) = printed w"
    using unset by (simp add: display_results_def logging_def)
  show "log (snd (snd (display_results self w)))
        = log w @ [(ERROR, ''Benchmark results are incomplete. Please run the benchmark first.'')]"
    using unset by (simp add: display_results_def logging_def)
next
  fix am atime pm ptime
  assume set: "assigner_total_gb self = Some am \<and> assigner_formatted_time self = Some atime \<and>
      proof_total_gb self = Some pm \<and> proof_formatted_time self = Some ptime"
  show "log (snd (snd (display_results self w))) = log w"
    using set by (simp add: display_results_def print_def Let_def)
  show "printed (snd (snd (display_results self w)))
          = printed w @
            [[Text ''1. Assigner:\<newline>   Memory: '', Text (fmt_2f am), Text ''GB,\<newline>   Time: '',
              Float_str atime, Text ''s''],
             [Text ''2. Proof:\<newline>   Memory: '', Text (fmt_2f pm), Text ''GB,\<newline>   Time: '',
              Float_str ptime, Text ''s'']]"
    using set by (simp add: display_results_def print_def Let_def)
  show "two_decimals (fmt_2f am)" "two_decimals (fmt_2f pm)"
    by (rule two_decimals_fmt_2f)+
qed

theorem display_results_all_or_nothing_witness:
  "assigner_total_gb measured_tool = Some (3 / 2) \<and>
   assigner_formatted_time measured_tool = Some (Finite_float (25 / 2)) \<and>
   proof_total_gb measured_tool = Some 12 \<and>
   proof_formatted_time measured_tool = Some (Finite_float 75) \<and>
   printed (snd (snd (display_results measured_tool sample_world)))
     = printed sample_world @
       [[Text ''1. Assigner:\<newline>   Memory: '', Text ''1.50'', Text ''GB,\<newline>   Time: '',
         Float_str (Finite_float (25 / 2)), Text ''s''],
        [Text ''2. Proof:\<newline>   Memory: '', Text ''12.00'', Text ''GB,\<newline>   Time: '',
         Float_str (Finite_float 75), Text ''s'']] \<and>
   two_decimals ''1.50'' \<and> two_decimals ''12.00''"
proof -
  have set: "assigner_total_gb measured_tool = Some (3 / 2) \<and>
      assigner_formatted_time measured_tool = Some (Finite_float (25 / 2)) \<and>
      proof_total_gb measured_tool = Some 12 \<and>
      proof_formatted_time measured_tool = Some (Finite_float 75)"
    by (simp add: measured_tool_def)
  have a: "fmt_2f (3 / 2) = ''1.50''" and p: "fmt_2f 12 = ''12.00''"
    by (simp_all add: fmt_2f_def round_half_even_def digits_of_nat_small digits_of_nat_large
        digit_char_def Let_def)
  have "printed (snd (snd (display_results measured_tool sample_world)))
          = printed sample_world @
            [[Text ''1. Assigner:\<newline>   Memory: '', Text (fmt_2f (3 / 2)), Text ''GB,\<newline>   Time: '',
              Float_str (Finite_float (25 / 2)), Text ''s''],
             [Text ''2. Proof:\<newline>   Memory: '', Text (fmt_2f 12),
              Text ''GB,\<newline>   Time: '', Float_str (Finite_float 75), Text ''s'']] \<and>
        two_decimals (fmt_2f (3 / 2)) \<and> two_decimals (fmt_2f 12)"
    using conjunct2 [OF display_results_all_or_nothing [of measured_tool sample_world],
        rule_format, OF set]
    by (rule conjunct2)
  then show ?thesis using set unfolding a p by (intro conjI) simp_all
qed

text \<open>
  C3. The menu action for choice 4, "Measure Assigner Execution Time", does not run
  the assigner: the one command it gives to the shell is the proof generator's, the
  command of choice 5, and what it stores as the assigner's time is read from that
  command's output. The method that times the assigner is never called.
\<close>

theorem assigner_time_action_runs_proof_generator:
  "commands (snd (snd (menu_action ''4'' self w)))
     = commands w @ [(proof_time_command self, Some (current_dir_path self))] \<and>
   commands (snd (snd (measure_assigner_execution_time self w)))
     = commands w @ [(assigner_time_command self, Some (current_dir_path self))] \<and>
   proof_time_command self \<noteq> assigner_time_command self"
proof (intro conjI)
  show "commands (snd (snd (menu_action ''4'' self w)))
     = commands w @ [(proof_time_command self, Some (current_dir_path self))]"
    by (simp add: menu_action_def measure_proof_generation_execution_time_def run_command_def
        logging_def Let_def split: prod.splits sum.splits)
  show "commands (snd (snd (measure_assigner_execution_time self w)))
     = commands w @ [(assigner_time_command self, Some (current_dir_path self))]"
    by (simp add: measure_assigner_execution_time_def run_command_def logging_def Let_def
        split: prod.splits)
  show "proof_time_command self \<noteq> assigner_time_command self"
    by (simp add: proof_time_command_def assigner_time_command_def)
qed

theorem assigner_time_action_runs_proof_generator_witness:
  "commands (snd (snd (menu_action ''4'' sample_tool sample_world)))
     = [(''time proof-generator-single-threaded --circuit ../zkllvm-template/build/src/template.crct --assignment ../zkllvm-template/build/src/template.tbl --proof ../zkllvm-template/build/proof.bin'',
         Some ''/home/user'')] \<and>
   assigner_formatted_time (fst (snd (menu_action ''4'' sample_tool sample_world))) = Some (Finite_float (3 / 2))"
proof -
  let ?cmd = "''time proof-generator-single-threaded --circuit ../zkllvm-template/build/src/template.crct --assignment ../zkllvm-template/build/src/template.tbl --proof ../zkllvm-template/build/proof.bin''"
  have cmd: "proof_time_command sample_tool = ?cmd"
    by (simp add: proof_time_command_def sample_tool_def init_def path_str_def)
  have cwd: "current_dir_path sample_tool = ''/home/user''"
    by (simp add: sample_tool_def init_def)
  have sh: "shell sample_world ?cmd (Some ''/home/user'') (file_exists sample_world)
      = (\<lparr>returncode = 0, stdout = [], stderr = ''0:01.50elapsed''\<rparr>, file_exists sample_world)"
    by (simp add: sample_world_def)
  have "round_double 0 = Finite_float 0"
    using round_double_dyadic [of 0 0] by simp
  moreover have "round_double (3 / 2) = Finite_float (3 / 2)"
    using round_double_dyadic [of 3 1] by simp
  ultimately have time: "extract_and_convert_time ''0:01.50elapsed'' = Inr (Some (Finite_float (3 / 2)))"
    by (simp add: eval_time int_max_str_digits_def)
  have "commands (snd (snd (menu_action ''4'' sample_tool sample_world)))
     = commands sample_world @ [(proof_time_command sample_tool, Some (current_dir_path sample_tool))]"
    using assigner_time_action_runs_proof_generator [of sample_tool sample_world] by blast
  then have "commands (snd (snd (menu_action ''4'' sample_tool sample_world)))
     = [(?cmd, Some ''/home/user'')]"
    unfolding cmd cwd by (simp add: sample_world_def)
  moreover have "assigner_formatted_time (fst (snd (menu_action ''4'' sample_tool sample_world))) = Some (Finite_float (3 / 2))"
    unfolding menu_action_def measure_proof_generation_execution_time_def run_command_def cmd cwd
    by (simp add: sh time Let_def)
  ultimately show ?thesis by blast
qed

end
